theory Spec2Isabelle
  imports Main "HOL-Library.Word"
begin

section \<open>The request validator of the query proxy (node/cmd/ccq/utils.go)\<close>

subsection \<open>Data model\<close>

type_synonym bytes = "8 word list"

text \<open>\<^verbatim>\<open>vaa.ChainID\<close> is a 16-bit unsigned integer.\<close>

type_synonym ChainID = "16 word"

text \<open>\<^verbatim>\<open>common.Environment\<close> is a named string type; an ECDSA private key is opaque to
  \<^verbatim>\<open>validateRequest\<close>, which only tests it against \<^verbatim>\<open>nil\<close> and hands it to the signer.\<close>

type_synonym Environment = string
type_synonym PrivateKey = bytes

text \<open>The two Solana query kinds, with the fields \<^verbatim>\<open>validateRequest\<close> reads. Every other
  implementation of the \<^verbatim>\<open>ChainSpecificQuery\<close> interface (the EVM call kinds, a nil query)
  takes the \<^verbatim>\<open>default\<close> branch of the type switch and is \<open>OtherQuery\<close> here.\<close>

record SolanaAccountQueryRequest =
  Accounts :: "bytes list"

record SolanaPDAEntry =
  ProgramAddress :: bytes

record SolanaPdaQueryRequest =
  PDAs :: "SolanaPDAEntry list"

datatype ChainSpecificQuery =
    SolanaAccount SolanaAccountQueryRequest
  | SolanaPda SolanaPdaQueryRequest
  | OtherQuery string

record PerChainQueryRequest =
  ChainId :: ChainID
  Query :: ChainSpecificQuery

record QueryRequest =
  Nonce :: "32 word"
  PerChainQueries :: "PerChainQueryRequest list"

text \<open>\<^verbatim>\<open>gossipv1.SignedQueryRequest\<close>: the serialized request and its signature. The Go field
  holding the serialized request is called \<^verbatim>\<open>QueryRequest\<close>.\<close>

record SignedQueryRequest =
  QueryRequestBytes :: bytes
  Signature :: bytes

text \<open>One entry of the permission table; \<^verbatim>\<open>allowedCalls\<close> is a Go \<^verbatim>\<open>map[string]struct{}\<close>,
  that is a set of call keys. \<^verbatim>\<open>perms.GetUserEntry(apiKey)\<close> is a lookup in the table.\<close>

record permissionEntry =
  userName :: string
  allowUnsigned :: bool
  allowedCalls :: "string set"

type_synonym Permissions = "string \<rightharpoonup> permissionEntry"

text \<open>The two Prometheus counter vectors, each a map from a label to a count.\<close>

record metrics =
  invalidQueryRequestReceived :: "string \<Rightarrow> nat"
  totalRequestedCallsByChain :: "string \<Rightarrow> nat"

definition inc_invalid :: "string \<Rightarrow> metrics \<Rightarrow> metrics" where
  "inc_invalid l m =
     m\<lparr>invalidQueryRequestReceived :=
         (invalidQueryRequestReceived m)(l := invalidQueryRequestReceived m l + 1)\<rparr>"

definition inc_total :: "string \<Rightarrow> metrics \<Rightarrow> metrics" where
  "inc_total l m =
     m\<lparr>totalRequestedCallsByChain :=
         (totalRequestedCallsByChain m)(l := totalRequestedCallsByChain m l + 1)\<rparr>"

text \<open>The errors \<^verbatim>\<open>validateRequest\<close> builds with \<^verbatim>\<open>fmt.Errorf\<close>; a wrapped inner error
  (\<^verbatim>\<open>%w\<close>) is carried as its message, the unauthorized call as its call key.\<close>

datatype error =
    InvalidApiKey
  | RequestNotSigned
  | FailedToSign string
  | FailedToUnmarshal string
  | FailedToValidate string
  | UnsupportedQueryType
  | CallNotAuthorized string

abbreviation StatusOK :: nat where "StatusOK \<equiv> 200"
abbreviation StatusBadRequest :: nat where "StatusBadRequest \<equiv> 400"
abbreviation StatusForbidden :: nat where "StatusForbidden \<equiv> 403"
abbreviation StatusInternalServerError :: nat where "StatusInternalServerError \<equiv> 500"

text \<open>The functions \<^verbatim>\<open>validateRequest\<close> calls that live in other packages
  (\<^verbatim>\<open>query.QueryRequestDigest\<close>, \<^verbatim>\<open>ethCrypto.Sign\<close>, \<^verbatim>\<open>QueryRequest.Unmarshal\<close>,
  \<^verbatim>\<open>QueryRequest.Validate\<close>, \<^verbatim>\<open>solana.PublicKey.String\<close>, \<^verbatim>\<open>vaa.ChainID.String\<close>) are
  parameters of the model. \<^verbatim>\<open>Sign\<close> returns a pair as in Go: the signature and an optional
  error.\<close>

record externals =
  QueryRequestDigest :: "Environment \<Rightarrow> bytes \<Rightarrow> bytes"
  Sign :: "bytes \<Rightarrow> PrivateKey \<Rightarrow> bytes \<times> string option"
  Unmarshal :: "bytes \<Rightarrow> string + QueryRequest"
  Validate :: "QueryRequest \<Rightarrow> string option"
  PublicKeyString :: "bytes \<Rightarrow> string"
  ChainIDString :: "ChainID \<Rightarrow> string"

subsection \<open>Call keys\<close>

text \<open>\<^verbatim>\<open>%d\<close> on a \<^verbatim>\<open>vaa.ChainID\<close> prints the number in decimal.\<close>

fun decimal :: "nat \<Rightarrow> string" where
  "decimal n =
     (if n < 10 then [char_of (48 + n)]
      else decimal (n div 10) @ [char_of (48 + n mod 10)])"

declare decimal.simps [simp del]

text \<open>\<^verbatim>\<open>fmt.Sprintf("%s:%d:%s", callTag, chainId, solana.PublicKey(acct).String())\<close>\<close>

definition callKey_of :: "externals \<Rightarrow> string \<Rightarrow> ChainID \<Rightarrow> bytes \<Rightarrow> string" where
  "callKey_of ext callTag chainId acct =
     callTag @ '':'' @ decimal (unat chainId) @ '':'' @ PublicKeyString ext acct"

subsection \<open>The per-query authorization loops\<close>

type_synonym check_result = "(nat \<times> error option) \<times> metrics"

text \<open>The loop over \<^verbatim>\<open>q.Accounts\<close> of \<^verbatim>\<open>validateSolanaAccountQuery\<close>: the first call key not
  in \<^verbatim>\<open>allowedCalls\<close> pegs \<^verbatim>\<open>call_not_authorized\<close> and returns; every key found pegs the
  requested-calls counter of the chain before the next account is looked at.\<close>

fun validateSolanaAccounts ::
  "externals \<Rightarrow> permissionEntry \<Rightarrow> string \<Rightarrow> ChainID \<Rightarrow> bytes list \<Rightarrow> metrics \<Rightarrow> check_result"
where
  "validateSolanaAccounts ext permsForUser callTag chainId [] m = ((StatusOK, None), m)"
| "validateSolanaAccounts ext permsForUser callTag chainId (acct # rest) m =
     (let callKey = callKey_of ext callTag chainId acct in
      if callKey \<notin> allowedCalls permsForUser
      then ((StatusForbidden, Some (CallNotAuthorized callKey)),
            inc_invalid ''call_not_authorized'' m)
      else validateSolanaAccounts ext permsForUser callTag chainId rest
             (inc_total (ChainIDString ext chainId) m))"

definition validateSolanaAccountQuery ::
  "externals \<Rightarrow> permissionEntry \<Rightarrow> string \<Rightarrow> ChainID \<Rightarrow> SolanaAccountQueryRequest \<Rightarrow>
   metrics \<Rightarrow> check_result"
where
  "validateSolanaAccountQuery ext permsForUser callTag chainId q m =
     validateSolanaAccounts ext permsForUser callTag chainId (Accounts q) m"

text \<open>\<^verbatim>\<open>validateSolanaPdaQuery\<close> is the same loop over \<^verbatim>\<open>q.PDAs\<close>, keyed by the program
  address of each entry.\<close>

definition validateSolanaPdaQuery ::
  "externals \<Rightarrow> permissionEntry \<Rightarrow> string \<Rightarrow> ChainID \<Rightarrow> SolanaPdaQueryRequest \<Rightarrow>
   metrics \<Rightarrow> check_result"
where
  "validateSolanaPdaQuery ext permsForUser callTag chainId q m =
     validateSolanaAccounts ext permsForUser callTag chainId (map ProgramAddress (PDAs q)) m"

subsection \<open>validateRequest\<close>

text \<open>The loop over \<^verbatim>\<open>queryRequest.PerChainQueries\<close>: the type switch, then the early return
  on the first error.\<close>

fun validatePerChainQueries ::
  "externals \<Rightarrow> permissionEntry \<Rightarrow> PerChainQueryRequest list \<Rightarrow> metrics \<Rightarrow> check_result"
where
  "validatePerChainQueries ext permsForUser [] m = ((StatusOK, None), m)"
| "validatePerChainQueries ext permsForUser (pcq # rest) m =
     (case Query pcq of
        OtherQuery t \<Rightarrow>
          ((StatusBadRequest, Some UnsupportedQueryType),
           inc_invalid ''unsupported_query_type'' m)
      | SolanaAccount q \<Rightarrow>
          (case validateSolanaAccountQuery ext permsForUser ''solAccount'' (ChainId pcq) q m of
             ((st, Some e), m') \<Rightarrow> ((st, Some e), m')
           | ((st, None), m') \<Rightarrow> validatePerChainQueries ext permsForUser rest m')
      | SolanaPda q \<Rightarrow>
          (case validateSolanaPdaQuery ext permsForUser ''solPDA'' (ChainId pcq) q m of
             ((st, Some e), m') \<Rightarrow> ((st, Some e), m')
           | ((st, None), m') \<Rightarrow> validatePerChainQueries ext permsForUser rest m'))"

text \<open>What a call of \<^verbatim>\<open>validateRequest\<close> leaves behind: the three values it returns, the
  \<^verbatim>\<open>SignedQueryRequest\<close> the caller passed by pointer, and the counters. The calls of
  \<^verbatim>\<open>logger.Debug\<close> only write to the log and are left out.\<close>

record outcome =
  status :: nat
  request :: "QueryRequest option"
  err :: "error option"
  qr_after :: SignedQueryRequest
  metrics_after :: metrics

definition validateRequest ::
  "externals \<Rightarrow> Environment \<Rightarrow> Permissions \<Rightarrow> PrivateKey option \<Rightarrow> string \<Rightarrow>
   SignedQueryRequest \<Rightarrow> metrics \<Rightarrow> outcome"
where
  "validateRequest ext env perms signerKey apiKey qr m =
     (case perms apiKey of
        None \<Rightarrow>
          \<lparr>status = StatusForbidden, request = None, err = Some InvalidApiKey,
           qr_after = qr, metrics_after = inc_invalid ''invalid_api_key'' m\<rparr>
      | Some permsForUser \<Rightarrow>
          if Signature qr = [] \<and> (\<not> allowUnsigned permsForUser \<or> signerKey = None)
          then \<lparr>status = StatusBadRequest, request = None, err = Some RequestNotSigned,
                qr_after = qr, metrics_after = inc_invalid ''request_not_signed'' m\<rparr>
          else
            let (qr1, signErr) =
                  (if Signature qr = []
                   then (let (sig, e) =
                               Sign ext (QueryRequestDigest ext env (QueryRequestBytes qr))
                                 (the signerKey)
                         in (qr\<lparr>Signature := sig\<rparr>, e))
                   else (qr, None))
            in
            (case signErr of
               Some e \<Rightarrow>
                 \<lparr>status = StatusInternalServerError, request = None,
                  err = Some (FailedToSign e), qr_after = qr1,
                  metrics_after = inc_invalid ''failed_to_sign_request'' m\<rparr>
             | None \<Rightarrow>
                 (case Unmarshal ext (QueryRequestBytes qr1) of
                    Inl e \<Rightarrow>
                      \<lparr>status = StatusBadRequest, request = None,
                       err = Some (FailedToUnmarshal e), qr_after = qr1,
                       metrics_after = inc_invalid ''failed_to_unmarshal_request'' m\<rparr>
                  | Inr queryRequest \<Rightarrow>
                      (case Validate ext queryRequest of
                         Some e \<Rightarrow>
                           \<lparr>status = StatusBadRequest, request = None,
                            err = Some (FailedToValidate e), qr_after = qr1,
                            metrics_after = inc_invalid ''failed_to_validate_request'' m\<rparr>
                       | None \<Rightarrow>
                           (case validatePerChainQueries ext permsForUser
                                   (PerChainQueries queryRequest) m of
                              ((st, Some e), m') \<Rightarrow>
                                \<lparr>status = st, request = None, err = Some e,
                                 qr_after = qr1, metrics_after = m'\<rparr>
                            | ((st, None), m') \<Rightarrow>
                                \<lparr>status = StatusOK, request = Some queryRequest, err = None,
                                 qr_after = qr1, metrics_after = m'\<rparr>)))))"

subsection \<open>Vocabulary for stating the properties of the validator\<close>

text \<open>The call keys a per-chain query asks for, in the order the loops look at them: one per
  account of a Solana account query, one per program address of a Solana PDA query.\<close>

definition call_keys :: "externals \<Rightarrow> PerChainQueryRequest \<Rightarrow> string list" where
  "call_keys ext pcq =
     (case Query pcq of
        SolanaAccount q \<Rightarrow> map (callKey_of ext ''solAccount'' (ChainId pcq)) (Accounts q)
      | SolanaPda q \<Rightarrow>
          map (callKey_of ext ''solPDA'' (ChainId pcq)) (map ProgramAddress (PDAs q))
      | OtherQuery t \<Rightarrow> [])"

definition supported :: "PerChainQueryRequest \<Rightarrow> bool" where
  "supported pcq = (case Query pcq of OtherQuery t \<Rightarrow> False | _ \<Rightarrow> True)"

text \<open>A query is authorized for a caller when every one of its call keys is in the caller's
  \<^verbatim>\<open>allowedCalls\<close>; it passes the loop when it is of a supported kind and authorized.\<close>

definition authorized :: "externals \<Rightarrow> permissionEntry \<Rightarrow> PerChainQueryRequest \<Rightarrow> bool" where
  "authorized ext p pcq = list_all (\<lambda>k. k \<in> allowedCalls p) (call_keys ext pcq)"

definition passes :: "externals \<Rightarrow> permissionEntry \<Rightarrow> PerChainQueryRequest \<Rightarrow> bool" where
  "passes ext p pcq = (supported pcq \<and> authorized ext p pcq)"

text \<open>The status and error the loop returns when it stops at a query that does not pass, and
  the label of the failure counter it pegs there.\<close>

definition rejection :: "externals \<Rightarrow> permissionEntry \<Rightarrow> PerChainQueryRequest \<Rightarrow> nat \<times> error option" where
  "rejection ext p pcq =
     (if supported pcq
      then (StatusForbidden,
            map_option CallNotAuthorized (find (\<lambda>k. k \<notin> allowedCalls p) (call_keys ext pcq)))
      else (StatusBadRequest, Some UnsupportedQueryType))"

definition rejection_label :: "PerChainQueryRequest \<Rightarrow> string" where
  "rejection_label pcq =
     (if supported pcq then ''call_not_authorized'' else ''unsupported_query_type'')"

text \<open>The label under which each error is counted.\<close>

definition reason_label :: "error \<Rightarrow> string" where
  "reason_label e =
     (case e of
        InvalidApiKey \<Rightarrow> ''invalid_api_key''
      | RequestNotSigned \<Rightarrow> ''request_not_signed''
      | FailedToSign x \<Rightarrow> ''failed_to_sign_request''
      | FailedToUnmarshal x \<Rightarrow> ''failed_to_unmarshal_request''
      | FailedToValidate x \<Rightarrow> ''failed_to_validate_request''
      | UnsupportedQueryType \<Rightarrow> ''unsupported_query_type''
      | CallNotAuthorized k \<Rightarrow> ''call_not_authorized'')"

text \<open>The number of calls of a list of queries whose chain has the counter label \<open>l\<close>, and
  the number of them the loops have pegged when they stop: all calls of the queries that pass
  before the first one that does not, and the authorized calls at the head of that one.\<close>

definition requested_calls :: "externals \<Rightarrow> string \<Rightarrow> PerChainQueryRequest list \<Rightarrow> nat" where
  "requested_calls ext l qs =
     (\<Sum>pcq\<leftarrow>qs. if ChainIDString ext (ChainId pcq) = l then length (call_keys ext pcq) else 0)"

definition pegged_before_stop ::
  "externals \<Rightarrow> permissionEntry \<Rightarrow> string \<Rightarrow> PerChainQueryRequest list \<Rightarrow> nat" where
  "pegged_before_stop ext p l qs =
     requested_calls ext l (takeWhile (passes ext p) qs) +
     (case find (\<lambda>q. \<not> passes ext p q) qs of
        None \<Rightarrow> 0
      | Some q \<Rightarrow>
          if ChainIDString ext (ChainId q) = l
          then length (takeWhile (\<lambda>k. k \<in> allowedCalls p) (call_keys ext q)) else 0)"

text \<open>The requested-calls counter of label \<open>l\<close> pegged \<open>n\<close> times.\<close>

definition peg_total :: "string \<Rightarrow> nat \<Rightarrow> metrics \<Rightarrow> metrics" where
  "peg_total l n m =
     m\<lparr>totalRequestedCallsByChain :=
         (totalRequestedCallsByChain m)(l := totalRequestedCallsByChain m l + n)\<rparr>"

text \<open>The request after the signing step, and the condition under which
  \<^verbatim>\<open>validateRequest\<close> goes on to deserialize it: it arrived signed, or the caller may send
  unsigned requests, a signer key is configured and signing returned no error.\<close>

definition cosigned :: "externals \<Rightarrow> Environment \<Rightarrow> PrivateKey option \<Rightarrow> SignedQueryRequest \<Rightarrow> SignedQueryRequest" where
  "cosigned ext env signerKey qr =
     (if Signature qr = []
      then qr\<lparr>Signature :=
                fst (Sign ext (QueryRequestDigest ext env (QueryRequestBytes qr)) (the signerKey))\<rparr>
      else qr)"

definition proceeds :: "externals \<Rightarrow> Environment \<Rightarrow> permissionEntry \<Rightarrow> PrivateKey option \<Rightarrow> SignedQueryRequest \<Rightarrow> bool" where
  "proceeds ext env p signerKey qr =
     (Signature qr \<noteq> [] \<or>
      (allowUnsigned p \<and> signerKey \<noteq> None \<and>
       snd (Sign ext (QueryRequestDigest ext env (QueryRequestBytes qr)) (the signerKey)) = None))"

section \<open>The query orchestrator and its watchers\<close>

subsection \<open>Messages between the orchestrator and the watchers\<close>

text \<open>The three statuses a watcher reports, as \<^verbatim>\<open>query_test.go\<close> names them.\<close>

datatype QueryStatus = QuerySuccess | QueryRetryNeeded | QueryFatalError

type_synonym RequestID = bytes

text \<open>The result payload of one sub-query is opaque to the orchestrator.\<close>

type_synonym PerChainQueryResponse = bytes

text \<open>\<^verbatim>\<open>PerChainQueryInternal\<close>, with the fields the mock watchers of \<^verbatim>\<open>query_test.go\<close> read
  (\<^verbatim>\<open>RequestID\<close>, \<^verbatim>\<open>RequestIdx\<close>, \<^verbatim>\<open>Request\<close>), and \<^verbatim>\<open>PerChainQueryResponseInternal\<close>, with
  the five arguments of \<^verbatim>\<open>CreatePerChainQueryResponseInternal\<close>.\<close>

record PerChainQueryInternal =
  pcq_RequestID :: RequestID
  pcq_RequestIdx :: nat
  pcq_Request :: PerChainQueryRequest

record PerChainQueryResponseInternal =
  res_RequestID :: RequestID
  res_RequestIdx :: nat
  res_ChainId :: ChainID
  res_Status :: QueryStatus
  res_Response :: PerChainQueryResponse

text \<open>\<^verbatim>\<open>QueryResponsePublication\<close>, with the two fields \<^verbatim>\<open>validateResponseForTest\<close> reads;
  a per-chain response is kept as its payload.\<close>

record QueryResponsePublication =
  pub_Request :: SignedQueryRequest
  pub_PerChainResponses :: "PerChainQueryResponse list"

subsection \<open>The per-chain response forwarder (GuardianOptionWatchers)\<close>

text \<open>\<^verbatim>\<open>logger.Fatal\<close> ends the process; a goroutine that goes on is \<open>Running\<close>.\<close>

datatype 'a process = Exited | Running 'a

text \<open>The goroutine started for each chain in \<^verbatim>\<open>GuardianOptionWatchers\<close>: a response read from
  the channel of the watcher of \<open>chainId\<close> is written to the orchestrator's response channel,
  unless it names another chain, which is fatal to the process.\<close>

definition forwardQueryResponse ::
  "ChainID \<Rightarrow> PerChainQueryResponseInternal \<Rightarrow> PerChainQueryResponseInternal process" where
  "forwardQueryResponse chainId response =
     (if res_ChainId response \<noteq> chainId then Exited else Running response)"

subsection \<open>The pending-request store\<close>

text \<open>Modelled from the spec: the status of a sub-query in section 3. The control loop
  \<^verbatim>\<open>handleQueryRequestsImpl\<close> and its types are not among the source files; only its test is.\<close>

datatype SubQueryStatus = Pending | Success | RetryNeeded | FatalError

text \<open>Modelled from the spec: the \<^verbatim>\<open>PerChainState\<close> record of section 3.\<close>

record PerChainState =
  pcs_chainId :: ChainID
  pcs_status :: SubQueryStatus
  pcs_result :: "PerChainQueryResponse option"
  pcs_retryCount :: nat
  pcs_requestIdx :: nat

text \<open>Modelled from the spec: the \<^verbatim>\<open>PendingQuery\<close> record of section 3. Times are in
  milliseconds. The deserialized request is kept beside the signed one.\<close>

record PendingQuery =
  pq_requestID :: RequestID
  pq_signedRequest :: SignedQueryRequest
  pq_queryRequest :: QueryRequest
  pq_perChainState :: "PerChainState list"
  pq_createdAt :: nat
  pq_lastRetryAt :: nat

text \<open>Modelled from the spec: the terminal failures of section 7 that end a pending request,
  and the mismatch of section 4.3.\<close>

datatype Failure = UnsupportedChain | ChainMismatch | FatalChainError | Timeout

text \<open>Modelled from the spec: the configuration surface of section 6 (the chains that have a
  worker queue, the request timeout and the retry interval) and the digest that names a
  request.\<close>

record OrchestratorConfig =
  cfg_routes :: "ChainID set"
  cfg_requestTimeout :: nat
  cfg_retryInterval :: nat
  cfg_requestDigest :: "bytes \<Rightarrow> RequestID"

text \<open>Modelled from the spec: what the control loop owns (the store of pending requests, in
  the order they were registered) and what it has sent: the items pushed onto the worker
  queues, the publications handed to the signer, the failures surfaced.\<close>

record Orchestrator =
  pending :: "(RequestID \<times> PendingQuery) list"
  dispatched :: "PerChainQueryInternal list"
  published :: "QueryResponsePublication list"
  failures :: "(RequestID \<times> Failure) list"

text \<open>Modelled from the spec: the control loop starts with an empty store.\<close>

definition initialOrchestrator :: Orchestrator where
  "initialOrchestrator = \<lparr>pending = [], dispatched = [], published = [], failures = []\<rparr>"

text \<open>Modelled from the spec: removing a request from the store.\<close>

definition removePending :: "RequestID \<Rightarrow> Orchestrator \<Rightarrow> Orchestrator" where
  "removePending rid st = st\<lparr>pending := filter (\<lambda>(k, pq). k \<noteq> rid) (pending st)\<rparr>"

text \<open>Modelled from the spec: the single writer updates the record of a pending request in
  place.\<close>

definition replacePending :: "RequestID \<Rightarrow> PendingQuery \<Rightarrow> Orchestrator \<Rightarrow> Orchestrator" where
  "replacePending rid pq st =
     st\<lparr>pending := map (\<lambda>(k, old). if k = rid then (k, pq) else (k, old)) (pending st)\<rparr>"

text \<open>Modelled from the spec: a failed request is removed from the store and a terminal error
  is surfaced (section 4.3).\<close>

definition failRequest :: "RequestID \<Rightarrow> Failure \<Rightarrow> Orchestrator \<Rightarrow> Orchestrator" where
  "failRequest rid f st = (removePending rid st)\<lparr>failures := failures st @ [(rid, f)]\<rparr>"

subsection \<open>A validated request arrives\<close>

text \<open>Modelled from the spec: one \<^verbatim>\<open>PerChainState\<close> per sub-query, in request order, with
  \<^verbatim>\<open>requestIdx\<close> its position (section 3).\<close>

definition initialPerChainState :: "PerChainQueryRequest list \<Rightarrow> PerChainState list" where
  "initialPerChainState qs =
     map (\<lambda>(i, pcq). \<lparr>pcs_chainId = ChainId pcq, pcs_status = Pending, pcs_result = None,
                      pcs_retryCount = 0, pcs_requestIdx = i\<rparr>) (enumerate 0 qs)"

text \<open>Modelled from the spec: the \<^verbatim>\<open>PerChainQueryInternal\<close> sent for sub-query \<open>i\<close> of a
  request (section 4.3).\<close>

definition dispatchOf :: "RequestID \<Rightarrow> QueryRequest \<Rightarrow> nat \<Rightarrow> PerChainQueryInternal" where
  "dispatchOf rid req i =
     \<lparr>pcq_RequestID = rid, pcq_RequestIdx = i, pcq_Request = PerChainQueries req ! i\<rparr>"

text \<open>Modelled from the spec: section 4.3, "On a validated QueryRequest", with the duplicate
  rule of section 3 (a request already pending is not dispatched again) and the fail-fast rule
  of section 4.2 (a chain without a route fails the request before anything is dispatched).\<close>

definition handleRequest ::
  "OrchestratorConfig \<Rightarrow> nat \<Rightarrow> SignedQueryRequest \<Rightarrow> QueryRequest \<Rightarrow> Orchestrator \<Rightarrow>
   Orchestrator" where
  "handleRequest cfg now sr req st =
     (let rid = cfg_requestDigest cfg (QueryRequestBytes sr) in
      if map_of (pending st) rid \<noteq> None then st
      else if list_ex (\<lambda>pcq. ChainId pcq \<notin> cfg_routes cfg) (PerChainQueries req)
      then st\<lparr>failures := failures st @ [(rid, UnsupportedChain)]\<rparr>
      else st\<lparr>pending := pending st @
                  [(rid, \<lparr>pq_requestID = rid, pq_signedRequest = sr, pq_queryRequest = req,
                          pq_perChainState = initialPerChainState (PerChainQueries req),
                          pq_createdAt = now, pq_lastRetryAt = now\<rparr>)],
              dispatched := dispatched st @
                  map (dispatchOf rid req) [0 ..< length (PerChainQueries req)]\<rparr>)"

subsection \<open>A watcher's result arrives\<close>

text \<open>Modelled from the spec: "the chain recorded for requestIdx"; no chain is recorded for an
  index the request does not have.\<close>

definition recordedChain :: "PendingQuery \<Rightarrow> nat \<Rightarrow> ChainID option" where
  "recordedChain pq i =
     (if i < length (pq_perChainState pq) then Some (pcs_chainId (pq_perChainState pq ! i))
      else None)"

text \<open>Modelled from the spec: the request is complete when every sub-query has succeeded
  (section 3).\<close>

definition allSucceeded :: "PendingQuery \<Rightarrow> bool" where
  "allSucceeded pq = list_all (\<lambda>s. pcs_status s = Success) (pq_perChainState pq)"

text \<open>Modelled from the spec: the publication is built from the recorded results, in request
  order.\<close>

definition publicationOf :: "PendingQuery \<Rightarrow> QueryResponsePublication" where
  "publicationOf pq =
     \<lparr>pub_Request = pq_signedRequest pq,
      pub_PerChainResponses = List.map_filter pcs_result (pq_perChainState pq)\<rparr>"

text \<open>Modelled from the spec: "record result, mark Success".\<close>

definition recordSuccess :: "nat \<Rightarrow> PerChainQueryResponse \<Rightarrow> PendingQuery \<Rightarrow> PendingQuery" where
  "recordSuccess i r pq =
     pq\<lparr>pq_perChainState :=
          (pq_perChainState pq)
            [i := (pq_perChainState pq ! i)\<lparr>pcs_status := Success, pcs_result := Some r\<rparr>]\<rparr>"

text \<open>Modelled from the spec: "increment retry counter".\<close>

definition countRetry :: "nat \<Rightarrow> PendingQuery \<Rightarrow> PendingQuery" where
  "countRetry i pq =
     pq\<lparr>pq_perChainState :=
          (pq_perChainState pq)
            [i := (pq_perChainState pq ! i)
                    \<lparr>pcs_retryCount := pcs_retryCount (pq_perChainState pq ! i) + 1\<rparr>]\<rparr>"

text \<open>Modelled from the spec: section 4.3, "On a PerChainQueryResponseInternal". A result for
  an unknown request is dropped. A chain that does not match the one recorded for the index is
  fatal to the whole request. A success is recorded unless the sub-query has succeeded already;
  when it completes the request, the publication is built and the request removed. A retry
  answer increments the retry counter, leaves the sub-query pending and re-dispatches it at
  once if the retry interval has elapsed since the last dispatch; otherwise the sub-query waits
  for the audit sweep. A fatal answer fails the whole request. A failed or completed request
  leaves the store, so the \<open>FatalError\<close> and \<open>RetryNeeded\<close> marks are never read.\<close>

definition handleResponse ::
  "OrchestratorConfig \<Rightarrow> nat \<Rightarrow> PerChainQueryResponseInternal \<Rightarrow> Orchestrator \<Rightarrow> Orchestrator"
where
  "handleResponse cfg now res st =
     (case map_of (pending st) (res_RequestID res) of
        None \<Rightarrow> st
      | Some pq \<Rightarrow>
          let rid = res_RequestID res; i = res_RequestIdx res in
          if recordedChain pq i \<noteq> Some (res_ChainId res) then failRequest rid ChainMismatch st
          else
            (case res_Status res of
               QueryFatalError \<Rightarrow> failRequest rid FatalChainError st
             | QuerySuccess \<Rightarrow>
                 if pcs_status (pq_perChainState pq ! i) = Success then st
                 else
                   let pq' = recordSuccess i (res_Response res) pq in
                   if allSucceeded pq'
                   then (removePending rid st)
                          \<lparr>published := published st @ [publicationOf pq']\<rparr>
                   else replacePending rid pq' st
             | QueryRetryNeeded \<Rightarrow>
                 if pcs_status (pq_perChainState pq ! i) = Success then st
                 else if pq_lastRetryAt pq + cfg_retryInterval cfg \<le> now
                 then (replacePending rid ((countRetry i pq)\<lparr>pq_lastRetryAt := now\<rparr>) st)
                        \<lparr>dispatched := dispatched st @ [dispatchOf rid (pq_queryRequest pq) i]\<rparr>
                 else replacePending rid (countRetry i pq) st))"

subsection \<open>The audit sweep\<close>

text \<open>Modelled from the spec: the sub-queries of a request that have not succeeded, which a
  sweep sends again.\<close>

definition unfinished :: "PendingQuery \<Rightarrow> nat list" where
  "unfinished pq =
     filter (\<lambda>i. pcs_status (pq_perChainState pq ! i) \<noteq> Success)
       [0 ..< length (pq_perChainState pq)]"

text \<open>Modelled from the spec: a sweep increments the retry counter of each sub-query it sends
  again, and the request remembers the time of this dispatch.\<close>

definition retryUnfinished :: "nat \<Rightarrow> PendingQuery \<Rightarrow> PendingQuery" where
  "retryUnfinished now pq = (fold countRetry (unfinished pq) pq)\<lparr>pq_lastRetryAt := now\<rparr>"

text \<open>Modelled from the spec: section 4.3, "Audit sweep". Every pending request is looked at,
  in store order. A request older than the request timeout is failed with a timeout and
  removed. Otherwise, when its last dispatch is older than the retry interval (the spec calls
  this threshold "the per-request timeout"; of the three durations of section 6 it is the
  retry interval, the request timeout being the absolute deadline), its unfinished sub-queries
  are sent again.\<close>

fun sweepPending ::
  "OrchestratorConfig \<Rightarrow> nat \<Rightarrow> (RequestID \<times> PendingQuery) list \<Rightarrow> Orchestrator \<Rightarrow> Orchestrator"
where
  "sweepPending cfg now [] st = st"
| "sweepPending cfg now ((rid, pq) # rest) st =
     sweepPending cfg now rest
       (if pq_createdAt pq + cfg_requestTimeout cfg < now then failRequest rid Timeout st
        else if pq_lastRetryAt pq + cfg_retryInterval cfg < now
        then (replacePending rid (retryUnfinished now pq) st)
               \<lparr>dispatched := dispatched st @
                   map (dispatchOf rid (pq_queryRequest pq)) (unfinished pq)\<rparr>
        else st)"

text \<open>Modelled from the spec: the periodic scan of all pending requests.\<close>

definition handleAuditSweep :: "OrchestratorConfig \<Rightarrow> nat \<Rightarrow> Orchestrator \<Rightarrow> Orchestrator" where
  "handleAuditSweep cfg now st = sweepPending cfg now (pending st) st"

subsection \<open>The control loop\<close>

text \<open>Modelled from the spec: the control task takes one message at a time from its inbound
  queues (validated requests, per-chain results) and its timer (section 5); each carries the
  time at which it is handled.\<close>

datatype Event =
    NewRequest nat SignedQueryRequest QueryRequest
  | Result nat PerChainQueryResponseInternal
  | AuditSweep nat

text \<open>Modelled from the spec: one turn of the control loop.\<close>

fun handleEvent :: "OrchestratorConfig \<Rightarrow> Orchestrator \<Rightarrow> Event \<Rightarrow> Orchestrator" where
  "handleEvent cfg st (NewRequest now sr req) = handleRequest cfg now sr req st"
| "handleEvent cfg st (Result now res) = handleResponse cfg now res st"
| "handleEvent cfg st (AuditSweep now) = handleAuditSweep cfg now st"

text \<open>Modelled from the spec: the control loop handles its messages in arrival order.\<close>

definition runOrchestrator :: "OrchestratorConfig \<Rightarrow> Event list \<Rightarrow> Orchestrator \<Rightarrow> Orchestrator" where
  "runOrchestrator cfg es st = foldl (handleEvent cfg) st es"

subsection \<open>The mock watchers of query\_test.go\<close>

text \<open>Go's \<^verbatim>\<open>int\<close> has 64 bits on the platforms the node is built for: arithmetic wraps around,
  and the two magic retry values are \<^verbatim>\<open>math.MaxInt\<close> and \<^verbatim>\<open>math.MaxInt - 1\<close>.\<close>

definition wrap64 :: "int \<Rightarrow> int" where
  "wrap64 x = (x + 2 ^ 63) mod 2 ^ 64 - 2 ^ 63"

definition fatalError :: int where "fatalError = 2 ^ 63 - 1"
definition ignoreQuery :: int where "ignoreQuery = 2 ^ 63 - 2"

text \<open>The fields of \<^verbatim>\<open>mockData\<close> the watchers use. The test keeps the expected results as
  \<^verbatim>\<open>PerChainQueryResponse\<close> values and hands the watcher their \<^verbatim>\<open>Response\<close> payload; here the
  payloads are kept.\<close>

record mockData =
  expectedResults :: "PerChainQueryResponse list"
  requestsPerChain :: "ChainID \<rightharpoonup> int"
  retriesPerChain :: "ChainID \<rightharpoonup> int"

definition resetState :: "mockData \<Rightarrow> mockData" where
  "resetState md =
     md\<lparr>expectedResults := [], requestsPerChain := Map.empty, retriesPerChain := Map.empty\<rparr>"

definition setExpectedResults :: "PerChainQueryResponse list \<Rightarrow> mockData \<Rightarrow> mockData" where
  "setExpectedResults rs md = md\<lparr>expectedResults := rs\<rparr>"

definition setRetries :: "ChainID \<Rightarrow> int \<Rightarrow> mockData \<Rightarrow> mockData" where
  "setRetries chainId count md = md\<lparr>retriesPerChain := (retriesPerChain md)(chainId \<mapsto> count)\<rparr>"

definition incrementRequestsPerChainAlreadyLocked :: "ChainID \<Rightarrow> mockData \<Rightarrow> mockData" where
  "incrementRequestsPerChainAlreadyLocked chainId md =
     (case requestsPerChain md chainId of
        Some val \<Rightarrow> md\<lparr>requestsPerChain := (requestsPerChain md)(chainId \<mapsto> wrap64 (val + 1))\<rparr>
      | None \<Rightarrow> md\<lparr>requestsPerChain := (requestsPerChain md)(chainId \<mapsto> 1)\<rparr>)"

definition getRequestsPerChain :: "ChainID \<Rightarrow> mockData \<Rightarrow> int" where
  "getRequestsPerChain chainId md =
     (case requestsPerChain md chainId of Some ret \<Rightarrow> ret | None \<Rightarrow> 0)"

definition shouldIgnoreAlreadyLocked :: "ChainID \<Rightarrow> mockData \<Rightarrow> bool \<times> mockData" where
  "shouldIgnoreAlreadyLocked chainId md =
     (case retriesPerChain md chainId of
        Some val \<Rightarrow>
          if val = ignoreQuery
          then (True, md\<lparr>retriesPerChain := (retriesPerChain md)(chainId := None)\<rparr>)
          else (False, md)
      | None \<Rightarrow> (False, md))"

definition getStatusAlreadyLocked :: "ChainID \<Rightarrow> mockData \<Rightarrow> QueryStatus \<times> mockData" where
  "getStatusAlreadyLocked chainId md =
     (case retriesPerChain md chainId of
        Some val \<Rightarrow>
          if val = fatalError then (QueryFatalError, md)
          else if 0 < wrap64 (val - 1)
          then (QueryRetryNeeded,
                md\<lparr>retriesPerChain := (retriesPerChain md)(chainId \<mapsto> wrap64 (val - 1))\<rparr>)
          else (QueryRetryNeeded,
                md\<lparr>retriesPerChain := (retriesPerChain md)(chainId := None)\<rparr>)
      | None \<Rightarrow> (QuerySuccess, md))"

text \<open>One turn of the watcher goroutine of \<open>chainId\<close> on a query read from its queue: it
  counts the request and then either ignores it or answers with the expected result of the
  request index and the status of \<^verbatim>\<open>getStatusAlreadyLocked\<close>. A query for another chain fails
  the test (\<^verbatim>\<open>require.Equal\<close>), and a request index beyond the expected results panics.\<close>

datatype WatcherTurn =
    Replied mockData PerChainQueryResponseInternal
  | Ignored mockData
  | WatcherFailed

definition watcherTurn :: "ChainID \<Rightarrow> PerChainQueryInternal \<Rightarrow> mockData \<Rightarrow> WatcherTurn" where
  "watcherTurn chainId pcqr md =
     (if chainId \<noteq> ChainId (pcq_Request pcqr) then WatcherFailed
      else
        let md1 = incrementRequestsPerChainAlreadyLocked chainId md;
            (ignore, md2) = shouldIgnoreAlreadyLocked chainId md1
        in if ignore then Ignored md2
           else if length (expectedResults md2) \<le> pcq_RequestIdx pcqr then WatcherFailed
           else
             let results = expectedResults md2 ! pcq_RequestIdx pcqr;
                 (status, md3) = getStatusAlreadyLocked chainId md2
             in Replied md3
                  \<lparr>res_RequestID = pcq_RequestID pcqr, res_RequestIdx = pcq_RequestIdx pcqr,
                   res_ChainId = ChainId (pcq_Request pcqr), res_Status = status,
                   res_Response = results\<rparr>)"

subsection \<open>The orchestrator wired to the mock watchers\<close>

text \<open>The environment \<^verbatim>\<open>createQueryHandlerForTest\<close> sets up: the control loop, the mock
  watchers, and the queues between them. \<open>delivered\<close> counts the dispatched items the watchers
  have taken from their queues, \<open>answers\<close> lists what they have written to the response
  queue.\<close>

record testEnv =
  orch :: Orchestrator
  mock :: mockData
  delivered :: nat
  answers :: "PerChainQueryResponseInternal list"

datatype Stop = WatcherStopped | OutOfFuel

text \<open>The next dispatched item is taken by the watcher of its chain (each chain has its own
  queue), and the watcher's answer, if any, is handled by the control loop.\<close>

definition deliverNext :: "OrchestratorConfig \<Rightarrow> nat \<Rightarrow> testEnv \<Rightarrow> Stop + testEnv" where
  "deliverNext cfg now env =
     (let item = dispatched (orch env) ! delivered env in
      case watcherTurn (ChainId (pcq_Request item)) item (mock env) of
        WatcherFailed \<Rightarrow> Inl WatcherStopped
      | Ignored md \<Rightarrow> Inr (env\<lparr>mock := md, delivered := delivered env + 1\<rparr>)
      | Replied md res \<Rightarrow>
          Inr \<lparr>orch = handleResponse cfg now res (orch env), mock = md,
               delivered = delivered env + 1, answers = answers env @ [res]\<rparr>)"

text \<open>The watchers answer at once: every item dispatched is delivered, and so is every item
  dispatched in reaction, before the clock moves. The recursion is bounded by fuel.\<close>

fun drain :: "OrchestratorConfig \<Rightarrow> nat \<Rightarrow> nat \<Rightarrow> testEnv \<Rightarrow> Stop + testEnv" where
  "drain cfg now fuel env =
     (if length (dispatched (orch env)) \<le> delivered env then Inr env
      else case fuel of
             0 \<Rightarrow> Inl OutOfFuel
           | Suc fuel' \<Rightarrow>
               (case deliverNext cfg now env of
                  Inl stop \<Rightarrow> Inl stop
                | Inr env' \<Rightarrow> drain cfg now fuel' env'))"

declare drain.simps [simp del]

datatype TestStep = Submit nat SignedQueryRequest QueryRequest | Tick nat

fun testStep :: "OrchestratorConfig \<Rightarrow> nat \<Rightarrow> testEnv \<Rightarrow> TestStep \<Rightarrow> Stop + testEnv" where
  "testStep cfg fuel env (Submit now sr req) =
     drain cfg now fuel (env\<lparr>orch := handleRequest cfg now sr req (orch env)\<rparr>)"
| "testStep cfg fuel env (Tick now) =
     drain cfg now fuel (env\<lparr>orch := handleAuditSweep cfg now (orch env)\<rparr>)"

fun runTest :: "OrchestratorConfig \<Rightarrow> nat \<Rightarrow> TestStep list \<Rightarrow> testEnv \<Rightarrow> Stop + testEnv" where
  "runTest cfg fuel [] env = Inr env"
| "runTest cfg fuel (s # steps) env =
     (case testStep cfg fuel env s of
        Inl stop \<Rightarrow> Inl stop
      | Inr env' \<Rightarrow> runTest cfg fuel steps env')"

text \<open>The number of times sub-query \<open>i\<close> of request \<open>rid\<close> has been dispatched.\<close>

definition dispatchCount :: "RequestID \<Rightarrow> nat \<Rightarrow> Orchestrator \<Rightarrow> nat" where
  "dispatchCount rid i st =
     length (filter (\<lambda>d. pcq_RequestID d = rid \<and> pcq_RequestIdx d = i) (dispatched st))"

text \<open>The statuses the watchers have reported for sub-query \<open>i\<close> of request \<open>rid\<close>, in
  order.\<close>

definition reportedStatuses :: "RequestID \<Rightarrow> nat \<Rightarrow> testEnv \<Rightarrow> QueryStatus list" where
  "reportedStatuses rid i env =
     map res_Status
       (filter (\<lambda>res. res_RequestID res = rid \<and> res_RequestIdx res = i) (answers env))"

text \<open>Tick times that are each more than the retry interval after the previous dispatch.\<close>

fun spaced :: "nat \<Rightarrow> nat \<Rightarrow> nat list \<Rightarrow> bool" where
  "spaced gap t [] = True"
| "spaced gap t (x # xs) = (t + gap < x \<and> spaced gap x xs)"

subsection \<open>Vocabulary for stating the properties of the orchestrator\<close>

text \<open>A request has been submitted when a \<open>NewRequest\<close> carrying it is among the events. A
  watcher has answered sub-query \<open>i\<close> of the request \<open>sr\<close> on chain \<open>c\<close> with the result \<open>r\<close>
  when a success carrying them is among the events.\<close>

definition submitted :: "Event list \<Rightarrow> SignedQueryRequest \<Rightarrow> QueryRequest \<Rightarrow> bool" where
  "submitted es sr req =
     list_ex (\<lambda>e. case e of NewRequest t sr' req' \<Rightarrow> sr' = sr \<and> req' = req | _ \<Rightarrow> False) es"

definition answered ::
  "OrchestratorConfig \<Rightarrow> Event list \<Rightarrow> SignedQueryRequest \<Rightarrow> nat \<Rightarrow> ChainID \<Rightarrow>
   PerChainQueryResponse \<Rightarrow> bool" where
  "answered cfg es sr i c r =
     list_ex (\<lambda>e. case e of
                Result t res \<Rightarrow>
                  res_RequestID res = cfg_requestDigest cfg (QueryRequestBytes sr) \<and>
                  res_RequestIdx res = i \<and> res_ChainId res = c \<and>
                  res_Status res = QuerySuccess \<and> res_Response res = r
              | _ \<Rightarrow> False) es"

text \<open>What every entry of the store and every publication satisfies after the events \<open>es\<close>:
  the states of an entry line up with the sub-queries of its request, each on the chain of its
  sub-query, and a state marked as succeeded holds the result of an answer; a publication holds
  one response per sub-query of a submitted request, each the result of an answer for that
  position on that sub-query's chain.\<close>

definition sub_ok ::
  "OrchestratorConfig \<Rightarrow> Event list \<Rightarrow> SignedQueryRequest \<Rightarrow> PerChainQueryRequest list \<Rightarrow>
   nat \<Rightarrow> PerChainState \<Rightarrow> bool" where
  "sub_ok cfg es sr qs i s =
     (pcs_chainId s = ChainId (qs ! i) \<and>
      (pcs_status s = Success \<longrightarrow>
         (\<exists>r. pcs_result s = Some r \<and> answered cfg es sr i (ChainId (qs ! i)) r)))"

definition entry_ok :: "OrchestratorConfig \<Rightarrow> Event list \<Rightarrow> RequestID \<times> PendingQuery \<Rightarrow> bool" where
  "entry_ok cfg es kp =
     (fst kp = cfg_requestDigest cfg (QueryRequestBytes (pq_signedRequest (snd kp))) \<and>
      submitted es (pq_signedRequest (snd kp)) (pq_queryRequest (snd kp)) \<and>
      length (pq_perChainState (snd kp)) = length (PerChainQueries (pq_queryRequest (snd kp))) \<and>
      (\<forall>i < length (pq_perChainState (snd kp)).
         sub_ok cfg es (pq_signedRequest (snd kp)) (PerChainQueries (pq_queryRequest (snd kp))) i
           (pq_perChainState (snd kp) ! i)))"

definition pub_ok :: "OrchestratorConfig \<Rightarrow> Event list \<Rightarrow> QueryResponsePublication \<Rightarrow> bool" where
  "pub_ok cfg es pub =
     (\<exists>req. submitted es (pub_Request pub) req \<and>
        length (pub_PerChainResponses pub) = length (PerChainQueries req) \<and>
        (\<forall>i < length (PerChainQueries req).
           answered cfg es (pub_Request pub) i (ChainId (PerChainQueries req ! i))
             (pub_PerChainResponses pub ! i)))"

definition orch_inv :: "OrchestratorConfig \<Rightarrow> Event list \<Rightarrow> Orchestrator \<Rightarrow> bool" where
  "orch_inv cfg es st =
     ((\<forall>kp \<in> set (pending st). entry_ok cfg es kp) \<and>
      (\<forall>pub \<in> set (published st). pub_ok cfg es pub))"

text \<open>A result on its way from the watcher of \<open>watcherChain\<close> to the store: first through the
  per-chain forwarder, then into the control loop.\<close>

definition deliverResult ::
  "OrchestratorConfig \<Rightarrow> nat \<Rightarrow> ChainID \<Rightarrow> PerChainQueryResponseInternal \<Rightarrow> Orchestrator \<Rightarrow>
   Orchestrator process" where
  "deliverResult cfg now watcherChain res st =
     (case forwardQueryResponse watcherChain res of
        Exited \<Rightarrow> Exited
      | Running res' \<Rightarrow> Running (handleResponse cfg now res' st))"

text \<open>The publications made for the request \<open>rid\<close>, and the events that submit a request
  with that identifier.\<close>

definition publicationsOf ::
  "OrchestratorConfig \<Rightarrow> RequestID \<Rightarrow> Orchestrator \<Rightarrow> QueryResponsePublication list" where
  "publicationsOf cfg rid st =
     filter (\<lambda>pub. cfg_requestDigest cfg (QueryRequestBytes (pub_Request pub)) = rid)
       (published st)"

definition submits :: "OrchestratorConfig \<Rightarrow> RequestID \<Rightarrow> Event \<Rightarrow> bool" where
  "submits cfg rid e =
     (case e of
        NewRequest t sr req \<Rightarrow> cfg_requestDigest cfg (QueryRequestBytes sr) = rid
      | _ \<Rightarrow> False)"

text \<open>The store keeps every request under the digest of its bytes; and a request is
  abandoned when, in such a store, nothing is pending under its identifier.\<close>

definition keyed :: "OrchestratorConfig \<Rightarrow> Orchestrator \<Rightarrow> bool" where
  "keyed cfg st =
     list_all (\<lambda>kp. fst kp = cfg_requestDigest cfg (QueryRequestBytes (pq_signedRequest (snd kp))))
       (pending st)"

definition abandoned :: "OrchestratorConfig \<Rightarrow> RequestID \<Rightarrow> Orchestrator \<Rightarrow> bool" where
  "abandoned cfg rid st = (keyed cfg st \<and> rid \<notin> fst ` set (pending st))"

subsection \<open>The retry scenario\<close>

text \<open>What \<^verbatim>\<open>retriesPerChain\<close> holds after the watcher of chain \<open>c\<close>, set to retry \<open>k\<close>
  times, has answered \<open>j\<close> queries.\<close>

definition retriesAfter :: "ChainID \<Rightarrow> nat \<Rightarrow> nat \<Rightarrow> (ChainID \<rightharpoonup> int)" where
  "retriesAfter c k j = (if j < k then [c \<mapsto> int (k - j)] else Map.empty)"

text \<open>The retry scenario: a request, the sub-query whose watcher is set to retry, the number of
  retries, the results the watchers hold, and the time the request is submitted.\<close>

record RetryScenario =
  sc_cfg :: OrchestratorConfig
  sc_sr :: SignedQueryRequest
  sc_req :: QueryRequest
  sc_idx :: nat
  sc_retries :: nat
  sc_results :: "PerChainQueryResponse list"
  sc_start :: nat

abbreviation sc_queries :: "RetryScenario \<Rightarrow> PerChainQueryRequest list" where
  "sc_queries s \<equiv> PerChainQueries (sc_req s)"

definition sc_rid :: "RetryScenario \<Rightarrow> RequestID" where
  "sc_rid s = cfg_requestDigest (sc_cfg s) (QueryRequestBytes (sc_sr s))"

definition sc_chain :: "RetryScenario \<Rightarrow> ChainID" where
  "sc_chain s = ChainId (sc_queries s ! sc_idx s)"

text \<open>The scenario is well formed: the retrying sub-query exists and is the only one on its
  chain (the mock counts retries by chain), there is an expected result per sub-query, every
  chain has a route, the retry interval is positive, and the retry count is below the two
  magic values.\<close>

definition sc_ok :: "RetryScenario \<Rightarrow> bool" where
  "sc_ok s =
     (sc_idx s < length (sc_queries s) \<and>
      length (sc_results s) = length (sc_queries s) \<and>
      list_all (\<lambda>q. ChainId q \<in> cfg_routes (sc_cfg s)) (sc_queries s) \<and>
      list_all (\<lambda>i. i = sc_idx s \<or> ChainId (sc_queries s ! i) \<noteq> sc_chain s)
        [0 ..< length (sc_queries s)] \<and>
      0 < cfg_retryInterval (sc_cfg s) \<and>
      int (sc_retries s) < ignoreQuery)"

text \<open>The mock before the request is sent: \<^verbatim>\<open>resetState\<close>, \<^verbatim>\<open>setExpectedResults\<close> and, for a
  positive retry count, \<^verbatim>\<open>setRetries\<close> on the chain of the retrying sub-query.\<close>

definition sc_mock :: "RetryScenario \<Rightarrow> mockData" where
  "sc_mock s =
     (let md = setExpectedResults (sc_results s)
                 (resetState \<lparr>expectedResults = [], requestsPerChain = Map.empty,
                              retriesPerChain = Map.empty\<rparr>)
      in if sc_retries s = 0 then md else setRetries (sc_chain s) (int (sc_retries s)) md)"

definition sc_env :: "RetryScenario \<Rightarrow> testEnv" where
  "sc_env s = \<lparr>orch = initialOrchestrator, mock = sc_mock s, delivered = 0, answers = []\<rparr>"

text \<open>The states a sub-query goes through in the scenario.\<close>

definition subInitial :: "RetryScenario \<Rightarrow> nat \<Rightarrow> PerChainState" where
  "subInitial s i =
     \<lparr>pcs_chainId = ChainId (sc_queries s ! i), pcs_status = Pending, pcs_result = None,
      pcs_retryCount = 0, pcs_requestIdx = i\<rparr>"

definition subDone :: "RetryScenario \<Rightarrow> nat \<Rightarrow> PerChainState" where
  "subDone s i =
     \<lparr>pcs_chainId = ChainId (sc_queries s ! i), pcs_status = Success,
      pcs_result = Some (sc_results s ! i), pcs_retryCount = 0, pcs_requestIdx = i\<rparr>"

definition subRetrying :: "RetryScenario \<Rightarrow> nat \<Rightarrow> PerChainState" where
  "subRetrying s rc =
     \<lparr>pcs_chainId = sc_chain s, pcs_status = Pending, pcs_result = None,
      pcs_retryCount = rc, pcs_requestIdx = sc_idx s\<rparr>"

text \<open>The state of sub-query \<open>i\<close> while the first dispatches are being answered, \<open>m\<close> of them
  so far; and between two sweeps, with the retry counter of the retrying sub-query at \<open>rc\<close>.\<close>

definition firstRound :: "RetryScenario \<Rightarrow> nat \<Rightarrow> nat \<Rightarrow> PerChainState" where
  "firstRound s m i =
     (if i < m then (if i = sc_idx s \<and> 0 < sc_retries s then subRetrying s 1 else subDone s i)
      else subInitial s i)"

definition betweenSweeps :: "RetryScenario \<Rightarrow> nat \<Rightarrow> nat \<Rightarrow> PerChainState" where
  "betweenSweeps s rc i = (if i = sc_idx s then subRetrying s rc else subDone s i)"

definition mkPending :: "RetryScenario \<Rightarrow> (nat \<Rightarrow> PerChainState) \<Rightarrow> nat \<Rightarrow> PendingQuery" where
  "mkPending s f t =
     \<lparr>pq_requestID = sc_rid s, pq_signedRequest = sc_sr s, pq_queryRequest = sc_req s,
      pq_perChainState = map f [0 ..< length (sc_queries s)],
      pq_createdAt = sc_start s, pq_lastRetryAt = t\<rparr>"

text \<open>Everything dispatched once the retrying sub-query has been sent again \<open>r\<close> times: each
  sub-query once, in request order, and then the \<open>r\<close> repeats.\<close>

definition dispatchLog :: "RetryScenario \<Rightarrow> nat \<Rightarrow> PerChainQueryInternal list" where
  "dispatchLog s r =
     map (dispatchOf (sc_rid s) (sc_req s)) [0 ..< length (sc_queries s)] @
     replicate r (dispatchOf (sc_rid s) (sc_req s) (sc_idx s))"

text \<open>The environment while the first dispatches are being answered, after the sweep number
  \<open>r\<close> has been answered with another retry, when the request has completed, and when it has
  timed out after \<open>r\<close> repeats.\<close>

definition firstRoundEnv :: "RetryScenario \<Rightarrow> nat \<Rightarrow> testEnv \<Rightarrow> bool" where
  "firstRoundEnv s m env =
     (pending (orch env) = [(sc_rid s, mkPending s (firstRound s m) (sc_start s))] \<and>
      dispatched (orch env) =
        map (dispatchOf (sc_rid s) (sc_req s)) [0 ..< length (sc_queries s)] \<and>
      published (orch env) = [] \<and> failures (orch env) = [] \<and>
      delivered env = m \<and>
      expectedResults (mock env) = sc_results s \<and>
      retriesPerChain (mock env) =
        retriesAfter (sc_chain s) (sc_retries s) (if sc_idx s < m then 1 else 0) \<and>
      requestsPerChain (mock env) (sc_chain s) = (if sc_idx s < m then Some 1 else None) \<and>
      reportedStatuses (sc_rid s) (sc_idx s) env =
        (if sc_idx s < m
         then [if 0 < sc_retries s then QueryRetryNeeded else QuerySuccess] else []))"

definition betweenSweepsEnv :: "RetryScenario \<Rightarrow> nat \<Rightarrow> nat \<Rightarrow> testEnv \<Rightarrow> bool" where
  "betweenSweepsEnv s r t env =
     (pending (orch env) = [(sc_rid s, mkPending s (betweenSweeps s (2 * r + 1)) t)] \<and>
      published (orch env) = [] \<and> failures (orch env) = [] \<and>
      delivered env = length (dispatched (orch env)) \<and>
      dispatched (orch env) = dispatchLog s r \<and>
      expectedResults (mock env) = sc_results s \<and>
      retriesPerChain (mock env) = retriesAfter (sc_chain s) (sc_retries s) (r + 1) \<and>
      requestsPerChain (mock env) (sc_chain s) = Some (int r + 1) \<and>
      reportedStatuses (sc_rid s) (sc_idx s) env = replicate (r + 1) QueryRetryNeeded)"

definition finishedEnv :: "RetryScenario \<Rightarrow> testEnv \<Rightarrow> bool" where
  "finishedEnv s env =
     (pending (orch env) = [] \<and>
      published (orch env) =
        [\<lparr>pub_Request = sc_sr s, pub_PerChainResponses = sc_results s\<rparr>] \<and>
      failures (orch env) = [] \<and>
      delivered env = length (dispatched (orch env)) \<and>
      dispatched (orch env) = dispatchLog s (sc_retries s) \<and>
      getRequestsPerChain (sc_chain s) (mock env) = int (sc_retries s) + 1 \<and>
      reportedStatuses (sc_rid s) (sc_idx s) env =
        replicate (sc_retries s) QueryRetryNeeded @ [QuerySuccess])"



subsection \<open>Concrete inputs\<close>

text \<open>Stand-ins for the library functions, used to run the validator on concrete requests:
  the digest is the identity, the signer prepends the key, a public key is printed byte by
  byte, a chain is named by its number. \<open>decode_as req\<close> deserializes every non-empty byte
  string to \<open>req\<close> and fails on the empty one. The structural check is modelled from the spec
  (non-empty \<^verbatim>\<open>perChainQueries\<close>).\<close>

definition test_ext :: "(bytes \<Rightarrow> string + QueryRequest) \<Rightarrow> externals" where
  "test_ext dec =
     \<lparr>QueryRequestDigest = (\<lambda>env bs. bs),
      Sign = (\<lambda>d k. (k @ d, None)),
      Unmarshal = dec,
      Validate = (\<lambda>q. if PerChainQueries q = [] then Some ''no per chain queries'' else None),
      PublicKeyString = map (\<lambda>b. char_of (unat b)),
      ChainIDString = (\<lambda>c. decimal (unat c))\<rparr>"

definition decode_as :: "QueryRequest \<Rightarrow> bytes \<Rightarrow> string + QueryRequest" where
  "decode_as req bs = (if bs = [] then Inl ''unexpected EOF'' else Inr req)"

definition acctA :: bytes where "acctA = replicate 32 0x41"

definition acctB :: bytes where "acctB = replicate 32 0x42"

definition alice :: permissionEntry where
  "alice = \<lparr>userName = ''alice'', allowUnsigned = True,
            allowedCalls = {''solAccount:1:AAAAAAAAAAAAAAAAAAAAAAAAAAAAAAAA''}\<rparr>"

definition bob :: permissionEntry where
  "bob = \<lparr>userName = ''bob'', allowUnsigned = False,
          allowedCalls = {''solAccount:1:AAAAAAAAAAAAAAAAAAAAAAAAAAAAAAAA''}\<rparr>"

definition test_perms :: Permissions where
  "test_perms = [''key1'' \<mapsto> alice, ''key2'' \<mapsto> bob]"

definition m0 :: metrics where
  "m0 = \<lparr>invalidQueryRequestReceived = (\<lambda>l. 0), totalRequestedCallsByChain = (\<lambda>l. 0)\<rparr>"

definition solAccountQuery :: "ChainID \<Rightarrow> bytes list \<Rightarrow> PerChainQueryRequest" where
  "solAccountQuery c accts = \<lparr>ChainId = c, Query = SolanaAccount \<lparr>Accounts = accts\<rparr>\<rparr>"

definition otherQuery :: "ChainID \<Rightarrow> PerChainQueryRequest" where
  "otherQuery c = \<lparr>ChainId = c, Query = OtherQuery ''EthCallQueryRequest''\<rparr>"

definition req_of :: "PerChainQueryRequest list \<Rightarrow> QueryRequest" where
  "req_of qs = \<lparr>Nonce = 1, PerChainQueries = qs\<rparr>"

definition signed_qr :: SignedQueryRequest where
  "signed_qr = \<lparr>QueryRequestBytes = [1], Signature = [7]\<rparr>"

definition unsigned_qr :: SignedQueryRequest where
  "unsigned_qr = \<lparr>QueryRequestBytes = [1], Signature = []\<rparr>"

definition unsigned_undecodable_qr :: SignedQueryRequest where
  "unsigned_undecodable_qr = \<lparr>QueryRequestBytes = [], Signature = []\<rparr>"

definition req_mixed :: QueryRequest where
  "req_mixed = req_of [otherQuery 2, solAccountQuery 1 [acctB]]"

definition req_partial :: QueryRequest where
  "req_partial = req_of [solAccountQuery 1 [acctA, acctB], otherQuery 2]"

definition req_good :: QueryRequest where
  "req_good = req_of [solAccountQuery 1 [acctA]]"

text \<open>An orchestrator for chains 1, 2 and 4 with the durations of \<^verbatim>\<open>query_test.go\<close> (request
  timeout 100 ms, retry interval 10 ms), a request with one sub-query on chain 1 and one on
  chain 2, and a run in which chain 2 answers before chain 1.\<close>

definition test_cfg :: OrchestratorConfig where
  "test_cfg = \<lparr>cfg_routes = {1, 2, 4}, cfg_requestTimeout = 100, cfg_retryInterval = 10,
               cfg_requestDigest = (\<lambda>bs. bs)\<rparr>"

definition two_chain_req :: QueryRequest where
  "two_chain_req =
     \<lparr>Nonce = 1,
      PerChainQueries =
        [\<lparr>ChainId = 1, Query = SolanaAccount \<lparr>Accounts = [replicate 32 0x41]\<rparr>\<rparr>,
         \<lparr>ChainId = 2, Query = SolanaAccount \<lparr>Accounts = [replicate 32 0x42]\<rparr>\<rparr>]\<rparr>"

definition two_chain_sr :: SignedQueryRequest where
  "two_chain_sr = \<lparr>QueryRequestBytes = [1], Signature = [7]\<rparr>"

definition result_for :: "nat \<Rightarrow> ChainID \<Rightarrow> QueryStatus \<Rightarrow> PerChainQueryResponse \<Rightarrow>
   PerChainQueryResponseInternal" where
  "result_for i c s r =
     \<lparr>res_RequestID = [1], res_RequestIdx = i, res_ChainId = c, res_Status = s,
      res_Response = r\<rparr>"

definition out_of_order_events :: "Event list" where
  "out_of_order_events =
     [NewRequest 0 two_chain_sr two_chain_req,
      Result 3 (result_for 1 2 QuerySuccess [0xB2]),
      Result 5 (result_for 0 1 QuerySuccess [0xA1])]"

definition two_chain_pub :: QueryResponsePublication where
  "two_chain_pub = \<lparr>pub_Request = two_chain_sr, pub_PerChainResponses = [[0xA1], [0xB2]]\<rparr>"

definition mismatch_state :: Orchestrator where
  "mismatch_state =
     runOrchestrator test_cfg
       [NewRequest 0 two_chain_sr two_chain_req,
        Result 3 (result_for 1 2 QuerySuccess [0xB2])] initialOrchestrator"

text \<open>What the control loop is sent after the mismatch: the answer of chain 1 that the
  request was still waiting for, and an audit sweep.\<close>

definition later_events :: "Event list" where
  "later_events = [Result 7 (result_for 0 1 QuerySuccess [0xA1]), AuditSweep 20]"











section \<open>Properties of the request validator\<close>

subsection \<open>The counters\<close>

lemma inc_simps [simp]:
  "invalidQueryRequestReceived (inc_total l m) = invalidQueryRequestReceived m"
  "totalRequestedCallsByChain (inc_invalid l m) = totalRequestedCallsByChain m"
  "invalidQueryRequestReceived (inc_invalid l m) =
     (invalidQueryRequestReceived m)(l := invalidQueryRequestReceived m l + 1)"
  "totalRequestedCallsByChain (inc_total l m) =
     (totalRequestedCallsByChain m)(l := totalRequestedCallsByChain m l + 1)"
  by (simp_all add: inc_invalid_def inc_total_def)

lemma peg_total_simps [simp]:
  "invalidQueryRequestReceived (peg_total l n m) = invalidQueryRequestReceived m"
  "totalRequestedCallsByChain (peg_total l n m) l' =
     totalRequestedCallsByChain m l' + (if l = l' then n else 0)"
  "peg_total l 0 m = m"
  "peg_total l n (inc_total l m) = peg_total l (Suc n) m"
  by (simp_all add: peg_total_def inc_total_def)

subsection \<open>The loop over the accounts of one query\<close>

lemma find_none_list_all: "(find (\<lambda>k. \<not> P k) xs = None) = list_all P xs"
  by (induction xs) simp_all

lemma takeWhile_list_all: "list_all P xs \<Longrightarrow> takeWhile P xs = xs"
  by (induction xs) simp_all

lemma find_first_split:
  "find P xs = Some x \<longleftrightarrow> (\<exists>pre post. xs = pre @ x # post \<and> P x \<and> (\<forall>y\<in>set pre. \<not> P y))"
proof (induction xs)
  case Nil
  then show ?case by simp
next
  case (Cons a xs)
  show ?case
  proof (cases "P a")
    case True
    have "(\<exists>pre post. a # xs = pre @ x # post \<and> P x \<and> (\<forall>y\<in>set pre. \<not> P y)) \<longleftrightarrow> a = x"
    proof
      assume "\<exists>pre post. a # xs = pre @ x # post \<and> P x \<and> (\<forall>y\<in>set pre. \<not> P y)"
      then obtain pre post where d: "a # xs = pre @ x # post" "\<forall>y\<in>set pre. \<not> P y" by blast
      with True show "a = x" by (cases pre) auto
    next
      assume "a = x"
      with True have "a # xs = [] @ x # xs \<and> P x \<and> (\<forall>y\<in>set []. \<not> P y)" by simp
      then show "\<exists>pre post. a # xs = pre @ x # post \<and> P x \<and> (\<forall>y\<in>set pre. \<not> P y)" by blast
    qed
    with True show ?thesis by simp
  next
    case False
    have "(\<exists>pre post. a # xs = pre @ x # post \<and> P x \<and> (\<forall>y\<in>set pre. \<not> P y)) \<longleftrightarrow>
          (\<exists>pre post. xs = pre @ x # post \<and> P x \<and> (\<forall>y\<in>set pre. \<not> P y))"
    proof
      assume "\<exists>pre post. a # xs = pre @ x # post \<and> P x \<and> (\<forall>y\<in>set pre. \<not> P y)"
      then obtain pre post where d: "a # xs = pre @ x # post" "P x" "\<forall>y\<in>set pre. \<not> P y"
        by blast
      with False obtain pre' where "pre = a # pre'" by (cases pre) auto
      with d have "xs = pre' @ x # post \<and> P x \<and> (\<forall>y\<in>set pre'. \<not> P y)" by simp
      then show "\<exists>pre post. xs = pre @ x # post \<and> P x \<and> (\<forall>y\<in>set pre. \<not> P y)" by blast
    next
      assume "\<exists>pre post. xs = pre @ x # post \<and> P x \<and> (\<forall>y\<in>set pre. \<not> P y)"
      then obtain pre post where d: "xs = pre @ x # post" "P x" "\<forall>y\<in>set pre. \<not> P y"
        by blast
      with False have "a # xs = (a # pre) @ x # post \<and> P x \<and> (\<forall>y\<in>set (a # pre). \<not> P y)"
        by simp
      then show "\<exists>pre post. a # xs = pre @ x # post \<and> P x \<and> (\<forall>y\<in>set pre. \<not> P y)"
        by blast
    qed
    with False Cons.IH show ?thesis by simp
  qed
qed

lemma accounts_status:
  "fst (validateSolanaAccounts ext p tag c accts m) =
     (case find (\<lambda>k. k \<notin> allowedCalls p) (map (callKey_of ext tag c) accts) of
        None \<Rightarrow> (StatusOK, None)
      | Some k \<Rightarrow> (StatusForbidden, Some (CallNotAuthorized k)))"
  by (induction accts arbitrary: m) (simp_all add: Let_def)

lemma accounts_invalid:
  "invalidQueryRequestReceived (snd (validateSolanaAccounts ext p tag c accts m)) =
     (if list_all (\<lambda>k. k \<in> allowedCalls p) (map (callKey_of ext tag c) accts)
      then invalidQueryRequestReceived m
      else (invalidQueryRequestReceived m)
             (''call_not_authorized'' := invalidQueryRequestReceived m ''call_not_authorized'' + 1))"
  by (induction accts arbitrary: m) (simp_all add: Let_def)

lemma accounts_total:
  "totalRequestedCallsByChain (snd (validateSolanaAccounts ext p tag c accts m)) l =
     totalRequestedCallsByChain m l +
     (if ChainIDString ext c = l
      then length (takeWhile (\<lambda>k. k \<in> allowedCalls p) (map (callKey_of ext tag c) accts))
      else 0)"
  by (induction accts arbitrary: m) (simp_all add: Let_def)

lemma accounts_pass:
  "list_all (\<lambda>k. k \<in> allowedCalls p) (map (callKey_of ext tag c) accts) \<Longrightarrow>
   validateSolanaAccounts ext p tag c accts m =
     ((StatusOK, None), peg_total (ChainIDString ext c) (length accts) m)"
proof (induction accts arbitrary: m)
  case Nil
  then show ?case by simp
next
  case (Cons a accts)
  then show ?case by (simp add: Let_def)
qed

lemma accounts_error:
  "snd (fst (validateSolanaAccounts ext p tag c accts m)) = None \<longleftrightarrow>
   list_all (\<lambda>k. k \<in> allowedCalls p) (map (callKey_of ext tag c) accts)"
  by (simp add: accounts_status find_none_list_all [symmetric] split: option.splits)

subsection \<open>The loop over the per-chain queries\<close>

text \<open>One iteration, with the two Solana branches of the type switch read as one call of the
  account loop.\<close>

lemma query_unfold:
  "validatePerChainQueries ext p (q # qs) m =
     (if \<not> supported q
      then ((StatusBadRequest, Some UnsupportedQueryType),
            inc_invalid ''unsupported_query_type'' m)
      else let r = validateSolanaAccounts ext p
                     (case Query q of SolanaAccount x \<Rightarrow> ''solAccount'' | _ \<Rightarrow> ''solPDA'')
                     (ChainId q)
                     (case Query q of SolanaAccount x \<Rightarrow> Accounts x
                      | SolanaPda x \<Rightarrow> map ProgramAddress (PDAs x) | _ \<Rightarrow> []) m
           in if snd (fst r) = None then validatePerChainQueries ext p qs (snd r) else r)"
  by (cases "Query q")
     (auto simp: supported_def validateSolanaAccountQuery_def validateSolanaPdaQuery_def
        Let_def split: prod.splits option.splits)

lemma call_keys_unfold:
  "supported q \<Longrightarrow>
   call_keys ext q =
     map (callKey_of ext (case Query q of SolanaAccount x \<Rightarrow> ''solAccount'' | _ \<Rightarrow> ''solPDA'')
            (ChainId q))
       (case Query q of SolanaAccount x \<Rightarrow> Accounts x
        | SolanaPda x \<Rightarrow> map ProgramAddress (PDAs x) | _ \<Rightarrow> [])"
  by (cases "Query q") (simp_all add: call_keys_def supported_def)

lemma query_pass:
  assumes "passes ext p q"
  shows "validatePerChainQueries ext p (q # qs) m =
           validatePerChainQueries ext p qs
             (peg_total (ChainIDString ext (ChainId q)) (length (call_keys ext q)) m)"
proof (cases "Query q")
  case (SolanaAccount x)
  with assms have "list_all (\<lambda>k. k \<in> allowedCalls p)
      (map (callKey_of ext ''solAccount'' (ChainId q)) (Accounts x))"
    by (simp add: passes_def authorized_def call_keys_def)
  from accounts_pass [OF this] SolanaAccount show ?thesis
    by (simp add: validateSolanaAccountQuery_def call_keys_def)
next
  case (SolanaPda x)
  with assms have "list_all (\<lambda>k. k \<in> allowedCalls p)
      (map (callKey_of ext ''solPDA'' (ChainId q)) (map ProgramAddress (PDAs x)))"
    by (simp add: passes_def authorized_def call_keys_def)
  from accounts_pass [OF this] SolanaPda show ?thesis
    by (simp add: validateSolanaPdaQuery_def call_keys_def)
next
  case (OtherQuery t)
  with assms show ?thesis by (simp add: passes_def supported_def)
qed

lemma query_fail_unfold:
  assumes "\<not> passes ext p q" and "supported q"
  shows "validatePerChainQueries ext p (q # qs) m =
           validateSolanaAccounts ext p
             (case Query q of SolanaAccount x \<Rightarrow> ''solAccount'' | _ \<Rightarrow> ''solPDA'')
             (ChainId q)
             (case Query q of SolanaAccount x \<Rightarrow> Accounts x
              | SolanaPda x \<Rightarrow> map ProgramAddress (PDAs x) | _ \<Rightarrow> []) m"
proof -
  from assms have "\<not> list_all (\<lambda>k. k \<in> allowedCalls p) (call_keys ext q)"
    by (simp add: passes_def authorized_def)
  with assms(2) show ?thesis
    unfolding query_unfold Let_def call_keys_unfold [OF assms(2)] accounts_error
    by simp
qed

lemma query_fail:
  assumes "\<not> passes ext p q"
  shows "fst (validatePerChainQueries ext p (q # qs) m) = rejection ext p q"
    and "invalidQueryRequestReceived (snd (validatePerChainQueries ext p (q # qs) m)) =
           (invalidQueryRequestReceived m)
             (rejection_label q := invalidQueryRequestReceived m (rejection_label q) + 1)"
    and "totalRequestedCallsByChain (snd (validatePerChainQueries ext p (q # qs) m)) l =
           totalRequestedCallsByChain m l +
           (if ChainIDString ext (ChainId q) = l
            then length (takeWhile (\<lambda>k. k \<in> allowedCalls p) (call_keys ext q)) else 0)"
proof -
  show "fst (validatePerChainQueries ext p (q # qs) m) = rejection ext p q"
  proof (cases "supported q")
    case True
    with assms have "\<not> list_all (\<lambda>k. k \<in> allowedCalls p) (call_keys ext q)"
      by (simp add: passes_def authorized_def)
    then obtain k where "find (\<lambda>k. k \<notin> allowedCalls p) (call_keys ext q) = Some k"
      by (cases "find (\<lambda>k. k \<notin> allowedCalls p) (call_keys ext q)")
         (simp_all add: find_none_list_all)
    with True show ?thesis
      unfolding query_fail_unfold [OF assms True] rejection_def call_keys_unfold [OF True]
      by (simp add: accounts_status)
  next
    case False
    then show ?thesis
      by (simp add: query_unfold rejection_def del: validatePerChainQueries.simps)
  qed
next
  show "invalidQueryRequestReceived (snd (validatePerChainQueries ext p (q # qs) m)) =
           (invalidQueryRequestReceived m)
             (rejection_label q := invalidQueryRequestReceived m (rejection_label q) + 1)"
  proof (cases "supported q")
    case True
    with assms have "\<not> list_all (\<lambda>k. k \<in> allowedCalls p) (call_keys ext q)"
      by (simp add: passes_def authorized_def)
    with True show ?thesis
      unfolding query_fail_unfold [OF assms True] rejection_label_def
        call_keys_unfold [OF True]
      by (simp add: accounts_invalid)
  next
    case False
    then show ?thesis
      by (simp add: query_unfold rejection_label_def del: validatePerChainQueries.simps)
  qed
next
  show "totalRequestedCallsByChain (snd (validatePerChainQueries ext p (q # qs) m)) l =
           totalRequestedCallsByChain m l +
           (if ChainIDString ext (ChainId q) = l
            then length (takeWhile (\<lambda>k. k \<in> allowedCalls p) (call_keys ext q)) else 0)"
  proof (cases "supported q")
    case True
    show ?thesis
      unfolding query_fail_unfold [OF assms True] call_keys_unfold [OF True]
      by (simp add: accounts_total)
  next
    case False
    then show ?thesis
      by (simp add: query_unfold call_keys_def supported_def
          del: validatePerChainQueries.simps split: ChainSpecificQuery.splits)
  qed
qed

text \<open>The loop stops at the first query that does not pass.\<close>

lemma loop_status:
  "fst (validatePerChainQueries ext p qs m) =
     (case find (\<lambda>q. \<not> passes ext p q) qs of
        None \<Rightarrow> (StatusOK, None)
      | Some q \<Rightarrow> rejection ext p q)"
proof (induction qs arbitrary: m)
  case Nil
  then show ?case by simp
next
  case (Cons q qs)
  show ?case
  proof (cases "passes ext p q")
    case True
    then show ?thesis by (simp add: query_pass Cons.IH del: validatePerChainQueries.simps)
  next
    case False
    then show ?thesis by (simp add: query_fail(1) del: validatePerChainQueries.simps)
  qed
qed

lemma loop_invalid:
  "invalidQueryRequestReceived (snd (validatePerChainQueries ext p qs m)) =
     (case find (\<lambda>q. \<not> passes ext p q) qs of
        None \<Rightarrow> invalidQueryRequestReceived m
      | Some q \<Rightarrow> (invalidQueryRequestReceived m)
             (rejection_label q := invalidQueryRequestReceived m (rejection_label q) + 1))"
proof (induction qs arbitrary: m)
  case Nil
  then show ?case by simp
next
  case (Cons q qs)
  show ?case
  proof (cases "passes ext p q")
    case True
    then show ?thesis by (simp add: query_pass Cons.IH del: validatePerChainQueries.simps split: option.splits)
  next
    case False
    then show ?thesis by (simp add: query_fail(2) del: validatePerChainQueries.simps)
  qed
qed

lemma loop_total:
  "totalRequestedCallsByChain (snd (validatePerChainQueries ext p qs m)) l =
     totalRequestedCallsByChain m l + pegged_before_stop ext p l qs"
proof (induction qs arbitrary: m)
  case Nil
  then show ?case by (simp add: pegged_before_stop_def requested_calls_def)
next
  case (Cons q qs)
  show ?case
  proof (cases "passes ext p q")
    case True
    then show ?thesis
      by (simp add: query_pass Cons.IH pegged_before_stop_def requested_calls_def
          del: validatePerChainQueries.simps)
  next
    case False
    then show ?thesis
      by (simp add: query_fail(3) pegged_before_stop_def requested_calls_def
          del: validatePerChainQueries.simps)
  qed
qed

lemma rejection_facts:
  assumes "\<not> passes ext p q"
  shows "snd (rejection ext p q) \<noteq> None"
    and "fst (rejection ext p q) = (if supported q then StatusForbidden else StatusBadRequest)"
    and "snd (rejection ext p q) = Some e \<Longrightarrow> reason_label e = rejection_label q"
    and "supported q \<Longrightarrow> \<exists>k. snd (rejection ext p q) = Some (CallNotAuthorized k) \<and>
           k \<in> set (call_keys ext q) \<and> k \<notin> allowedCalls p"
proof -
  have sup: "\<exists>k. find (\<lambda>k. k \<notin> allowedCalls p) (call_keys ext q) = Some k \<and>
           k \<in> set (call_keys ext q) \<and> k \<notin> allowedCalls p" if "supported q"
  proof -
    from assms that have "\<not> list_all (\<lambda>k. k \<in> allowedCalls p) (call_keys ext q)"
      by (simp add: passes_def authorized_def)
    then obtain k where k: "find (\<lambda>k. k \<notin> allowedCalls p) (call_keys ext q) = Some k"
      by (cases "find (\<lambda>k. k \<notin> allowedCalls p) (call_keys ext q)")
         (simp_all add: find_none_list_all)
    then have "k \<in> set (call_keys ext q) \<and> k \<notin> allowedCalls p"
      by (auto simp: find_first_split)
    with k show ?thesis by blast
  qed
  show "snd (rejection ext p q) \<noteq> None"
    using sup by (auto simp: rejection_def)
  show "fst (rejection ext p q) = (if supported q then StatusForbidden else StatusBadRequest)"
    by (simp add: rejection_def)
  show "reason_label e = rejection_label q" if "snd (rejection ext p q) = Some e"
    using that sup by (auto simp: rejection_def rejection_label_def reason_label_def
        split: if_splits)
  show "\<exists>k. snd (rejection ext p q) = Some (CallNotAuthorized k) \<and>
           k \<in> set (call_keys ext q) \<and> k \<notin> allowedCalls p" if "supported q"
    using that sup by (auto simp: rejection_def)
qed

lemma loop_error_label:
  assumes "snd (fst (validatePerChainQueries ext p qs m)) = Some e"
  shows "fst (fst (validatePerChainQueries ext p qs m)) \<noteq> StatusOK \<and>
         invalidQueryRequestReceived (snd (validatePerChainQueries ext p qs m)) =
           (invalidQueryRequestReceived m)
             (reason_label e := invalidQueryRequestReceived m (reason_label e) + 1)"
proof (cases "find (\<lambda>q. \<not> passes ext p q) qs")
  case None
  with assms show ?thesis by (simp add: loop_status)
next
  case (Some q)
  then have nq: "\<not> passes ext p q" by (auto simp: find_first_split)
  from assms Some have "snd (rejection ext p q) = Some e" by (simp add: loop_status)
  from rejection_facts(3) [OF nq this] Some show ?thesis
    by (simp add: loop_status loop_invalid rejection_facts(2) [OF nq])
qed

lemma loop_no_error:
  assumes "snd (fst (validatePerChainQueries ext p qs m)) = None"
  shows "find (\<lambda>q. \<not> passes ext p q) qs = None"
proof (cases "find (\<lambda>q. \<not> passes ext p q) qs")
  case None
  then show ?thesis .
next
  case (Some q)
  then have nq: "\<not> passes ext p q" by (auto simp: find_first_split)
  from rejection_facts(1) [OF nq] assms Some show ?thesis by (simp add: loop_status)
qed

lemma pegged_all_pass:
  assumes "find (\<lambda>q. \<not> passes ext p q) qs = None"
  shows "pegged_before_stop ext p l qs = requested_calls ext l qs"
proof -
  from assms have "list_all (passes ext p) qs" by (simp add: find_none_list_all)
  then have tw: "takeWhile (passes ext p) qs = qs" by (rule takeWhile_list_all)
  show ?thesis unfolding pegged_before_stop_def tw assms by simp
qed

lemma pegged_le: "pegged_before_stop ext p l qs \<le> requested_calls ext l qs"
proof (induction qs)
  case Nil
  then show ?case by (simp add: pegged_before_stop_def requested_calls_def)
next
  case (Cons q qs)
  have "length (takeWhile (\<lambda>k. k \<in> allowedCalls p) (call_keys ext q)) \<le> length (call_keys ext q)"
    by (rule length_takeWhile_le)
  with Cons show ?case
    by (simp add: pegged_before_stop_def requested_calls_def)
qed

subsection \<open>The three ways through validateRequest\<close>

lemma outcome_unknown:
  assumes "perms apiKey = None"
  shows "validateRequest ext env perms signerKey apiKey qr m =
     \<lparr>status = StatusForbidden, request = None, err = Some InvalidApiKey,
      qr_after = qr, metrics_after = inc_invalid ''invalid_api_key'' m\<rparr>"
  using assms by (simp add: validateRequest_def)

lemma outcome_stopped:
  assumes "perms apiKey = Some p" and "\<not> proceeds ext env p signerKey qr"
  shows "validateRequest ext env perms signerKey apiKey qr m =
     (if \<not> allowUnsigned p \<or> signerKey = None
      then \<lparr>status = StatusBadRequest, request = None, err = Some RequestNotSigned,
            qr_after = qr, metrics_after = inc_invalid ''request_not_signed'' m\<rparr>
      else \<lparr>status = StatusInternalServerError, request = None,
            err = Some (FailedToSign (the (snd (Sign ext
                    (QueryRequestDigest ext env (QueryRequestBytes qr)) (the signerKey))))),
            qr_after = cosigned ext env signerKey qr,
            metrics_after = inc_invalid ''failed_to_sign_request'' m\<rparr>)"
  using assms
  by (auto simp add: validateRequest_def proceeds_def cosigned_def Let_def
      split: sum.splits option.splits prod.splits)

lemma outcome_proceeds:
  assumes "perms apiKey = Some p" and "proceeds ext env p signerKey qr"
  shows "validateRequest ext env perms signerKey apiKey qr m =
     (case Unmarshal ext (QueryRequestBytes qr) of
        Inl e \<Rightarrow>
          \<lparr>status = StatusBadRequest, request = None, err = Some (FailedToUnmarshal e),
           qr_after = cosigned ext env signerKey qr,
           metrics_after = inc_invalid ''failed_to_unmarshal_request'' m\<rparr>
      | Inr req \<Rightarrow>
          (case Validate ext req of
             Some e \<Rightarrow>
               \<lparr>status = StatusBadRequest, request = None, err = Some (FailedToValidate e),
                qr_after = cosigned ext env signerKey qr,
                metrics_after = inc_invalid ''failed_to_validate_request'' m\<rparr>
           | None \<Rightarrow>
               (let r = validatePerChainQueries ext p (PerChainQueries req) m in
                case snd (fst r) of
                  Some e \<Rightarrow> \<lparr>status = fst (fst r), request = None, err = Some e,
                             qr_after = cosigned ext env signerKey qr, metrics_after = snd r\<rparr>
                | None \<Rightarrow> \<lparr>status = StatusOK, request = Some req, err = None,
                           qr_after = cosigned ext env signerKey qr, metrics_after = snd r\<rparr>)))"
  using assms
  by (auto simp add: validateRequest_def proceeds_def cosigned_def Let_def
      split: sum.splits option.splits prod.splits)

subsection \<open>Authorization is all-or-nothing\<close>

text \<open>Claim C1, as stated, promises 403 Forbidden whenever a call of the request is missing
  from the caller's authorized call set. The loop returns at the first query that fails a
  check, so a query of an unsupported kind in front of the unauthorized call gives
  400 Bad Request.\<close>

theorem unauthorized_call_status_counterexample:
  "test_perms ''key1'' = Some alice \<and> Signature signed_qr \<noteq> [] \<and>
   Unmarshal (test_ext (decode_as req_mixed)) (QueryRequestBytes signed_qr) = Inr req_mixed \<and>
   PerChainQueries req_mixed ! 1 = solAccountQuery 1 [acctB] \<and>
   call_keys (test_ext (decode_as req_mixed)) (solAccountQuery 1 [acctB]) =
     [''solAccount:1:BBBBBBBBBBBBBBBBBBBBBBBBBBBBBBBB''] \<and>
   ''solAccount:1:BBBBBBBBBBBBBBBBBBBBBBBBBBBBBBBB'' \<notin> allowedCalls alice \<and>
   status (validateRequest (test_ext (decode_as req_mixed)) ''devnet'' test_perms None
             ''key1'' signed_qr m0) = StatusBadRequest"
  by code_simp

text \<open>Claim C1, amended: for a known caller and a signed request that deserializes, if any
  call of any per-chain query is missing from the caller's authorized call set, the whole
  request is rejected: no \<^verbatim>\<open>QueryRequest\<close> is returned, an error is, and the status is
  403 Forbidden, or 400 Bad Request exactly when the request fails structural validation or a
  query of an unsupported kind comes before every query that has an unauthorized call.\<close>

theorem unauthorized_call_rejects_request:
  assumes known: "perms apiKey = Some p"
    and signed: "Signature qr \<noteq> []"
    and decoded: "Unmarshal ext (QueryRequestBytes qr) = Inr req"
    and pcq: "pcq \<in> set (PerChainQueries req)"
    and call: "k \<in> set (call_keys ext pcq)"
    and missing: "k \<notin> allowedCalls p"
  shows "request (validateRequest ext env perms signerKey apiKey qr m) = None \<and>
         err (validateRequest ext env perms signerKey apiKey qr m) \<noteq> None \<and>
         status (validateRequest ext env perms signerKey apiKey qr m)
           \<in> {StatusForbidden, StatusBadRequest} \<and>
         (status (validateRequest ext env perms signerKey apiKey qr m) = StatusBadRequest \<longleftrightarrow>
            Validate ext req \<noteq> None \<or>
            (\<exists>pre q post. PerChainQueries req = pre @ q # post \<and>
               (\<forall>x\<in>set pre. passes ext p x) \<and> \<not> supported q))"
proof -
  let ?out = "validateRequest ext env perms signerKey apiKey qr m"
  from signed have pr: "proceeds ext env p signerKey qr" by (simp add: proceeds_def)
  from call missing have "\<not> passes ext p pcq"
    by (auto simp: passes_def authorized_def list_all_iff)
  with pcq obtain q where q: "find (\<lambda>q. \<not> passes ext p q) (PerChainQueries req) = Some q"
    by (cases "find (\<lambda>q. \<not> passes ext p q) (PerChainQueries req)")
       (auto simp: find_None_iff)
  then have nq: "\<not> passes ext p q" by (auto simp: find_first_split)
  have uniq: "q' = q" if "PerChainQueries req = pre @ q' # post"
    "\<forall>x\<in>set pre. passes ext p x" "\<not> supported q'" for pre q' post
  proof -
    from that have "find (\<lambda>q. \<not> passes ext p q) (PerChainQueries req) = Some q'"
      unfolding find_first_split by (auto simp: passes_def)
    with q show ?thesis by simp
  qed
  from q obtain pre post where dec: "PerChainQueries req = pre @ q # post"
    "\<forall>x\<in>set pre. passes ext p x" by (auto simp: find_first_split)
  show ?thesis
  proof (cases "Validate ext req")
    case (Some e)
    with known pr decoded show ?thesis by (simp add: outcome_proceeds)
  next
    case None
    from q have fst: "fst (validatePerChainQueries ext p (PerChainQueries req) m) =
        rejection ext p q" by (simp add: loop_status)
    from rejection_facts(1) [OF nq] obtain e where e: "snd (rejection ext p q) = Some e"
      by blast
    from known pr decoded None fst e have 
      "request ?out = None" "err ?out = Some e" "status ?out = fst (rejection ext p q)"
      by (simp_all add: outcome_proceeds Let_def)
    moreover have "fst (rejection ext p q) = StatusBadRequest \<longleftrightarrow> \<not> supported q"
      by (simp add: rejection_facts(2) [OF nq])
    moreover have "\<not> supported q \<longleftrightarrow> (\<exists>pre q post. PerChainQueries req = pre @ q # post \<and>
               (\<forall>x\<in>set pre. passes ext p x) \<and> \<not> supported q)"
      using dec uniq by blast
    ultimately show ?thesis using None by (simp add: rejection_facts(2) [OF nq])
  qed
qed

theorem unauthorized_call_rejects_request_witness:
  "test_perms ''key1'' = Some alice \<and> Signature signed_qr \<noteq> [] \<and>
   Unmarshal (test_ext (decode_as req_partial)) (QueryRequestBytes signed_qr) = Inr req_partial \<and>
   solAccountQuery 1 [acctA, acctB] \<in> set (PerChainQueries req_partial) \<and>
   ''solAccount:1:BBBBBBBBBBBBBBBBBBBBBBBBBBBBBBBB''
      \<in> set (call_keys (test_ext (decode_as req_partial)) (solAccountQuery 1 [acctA, acctB])) \<and>
   ''solAccount:1:BBBBBBBBBBBBBBBBBBBBBBBBBBBBBBBB'' \<notin> allowedCalls alice \<and>
   request (validateRequest (test_ext (decode_as req_partial)) ''devnet'' test_perms None
              ''key1'' signed_qr m0) = None \<and>
   status (validateRequest (test_ext (decode_as req_partial)) ''devnet'' test_perms None
              ''key1'' signed_qr m0) \<in> {StatusForbidden, StatusBadRequest}"
proof -
  have h1: "test_perms ''key1'' = Some alice" by (simp add: test_perms_def)
  have h2: "Signature signed_qr \<noteq> []" by (simp add: signed_qr_def)
  have h3: "Unmarshal (test_ext (decode_as req_partial)) (QueryRequestBytes signed_qr) =
      Inr req_partial" by (simp add: test_ext_def decode_as_def signed_qr_def)
  have h4: "solAccountQuery 1 [acctA, acctB] \<in> set (PerChainQueries req_partial)"
    by (simp add: req_partial_def req_of_def)
  have h5: "''solAccount:1:BBBBBBBBBBBBBBBBBBBBBBBBBBBBBBBB''
      \<in> set (call_keys (test_ext (decode_as req_partial)) (solAccountQuery 1 [acctA, acctB]))"
    by code_simp
  have h6: "''solAccount:1:BBBBBBBBBBBBBBBBBBBBBBBBBBBBBBBB'' \<notin> allowedCalls alice"
    by (simp add: alice_def)
  from unauthorized_call_rejects_request [where perms = test_perms and apiKey = "''key1''",
      OF h1 h2 h3 h4 h5 h6, of "''devnet''" None m0] h1 h2 h3 h4 h5 h6
  show ?thesis by blast
qed

subsection \<open>The signature is not verified\<close>

text \<open>Claim C3: two requests that differ only in the content of their non-empty signatures
  get the same status, the same returned \<^verbatim>\<open>QueryRequest\<close>, the same error and the same
  counters, whoever the caller is.\<close>

theorem signature_content_ignored:
  assumes "Signature qr \<noteq> []" and "sig' \<noteq> []"
  shows "status (validateRequest ext env perms signerKey apiKey (qr\<lparr>Signature := sig'\<rparr>) m) =
           status (validateRequest ext env perms signerKey apiKey qr m) \<and>
         request (validateRequest ext env perms signerKey apiKey (qr\<lparr>Signature := sig'\<rparr>) m) =
           request (validateRequest ext env perms signerKey apiKey qr m) \<and>
         err (validateRequest ext env perms signerKey apiKey (qr\<lparr>Signature := sig'\<rparr>) m) =
           err (validateRequest ext env perms signerKey apiKey qr m) \<and>
         metrics_after (validateRequest ext env perms signerKey apiKey (qr\<lparr>Signature := sig'\<rparr>) m) =
           metrics_after (validateRequest ext env perms signerKey apiKey qr m)"
proof (cases "perms apiKey")
  case None
  then show ?thesis by (simp add: outcome_unknown)
next
  case (Some p)
  from assms have "proceeds ext env p signerKey qr"
    "proceeds ext env p signerKey (qr\<lparr>Signature := sig'\<rparr>)"
    by (simp_all add: proceeds_def)
  with Some show ?thesis
    by (simp add: outcome_proceeds Let_def split: sum.splits option.splits)
qed

theorem signature_content_ignored_witness:
  "Signature signed_qr \<noteq> [] \<and> [9] \<noteq> ([] :: bytes) \<and>
   status (validateRequest (test_ext (decode_as req_good)) ''devnet'' test_perms None
             ''key1'' (signed_qr\<lparr>Signature := [9]\<rparr>) m0) =
   status (validateRequest (test_ext (decode_as req_good)) ''devnet'' test_perms None
             ''key1'' signed_qr m0) \<and>
   request (validateRequest (test_ext (decode_as req_good)) ''devnet'' test_perms None
             ''key1'' (signed_qr\<lparr>Signature := [9]\<rparr>) m0) =
   request (validateRequest (test_ext (decode_as req_good)) ''devnet'' test_perms None
             ''key1'' signed_qr m0)"
proof -
  have h1: "Signature signed_qr \<noteq> []" by (simp add: signed_qr_def)
  have h2: "[9] \<noteq> ([] :: bytes)" by simp
  from signature_content_ignored [OF h1 h2] h1 h2 show ?thesis by blast
qed

subsection \<open>Unsigned requests\<close>

text \<open>Claim C4: a request of a known caller that arrives with an empty signature is rejected
  as not signed when the caller lacks \<^verbatim>\<open>allowUnsigned\<close> or no signer key is configured.
  When both hold, it is never rejected as not signed, and the request is left holding the
  signature that \<^verbatim>\<open>Sign\<close> returned for the digest of the raw request bytes under the
  signer key; when signing succeeds with a non-empty signature, the outcome is the one of
  validating the request that already carries that signature.\<close>

theorem unsigned_request_cosigned:
  assumes known: "perms apiKey = Some p" and unsigned: "Signature qr = []"
  shows "(\<not> allowUnsigned p \<or> signerKey = None \<longrightarrow>
            status (validateRequest ext env perms signerKey apiKey qr m) = StatusBadRequest \<and>
            request (validateRequest ext env perms signerKey apiKey qr m) = None \<and>
            err (validateRequest ext env perms signerKey apiKey qr m) = Some RequestNotSigned \<and>
            qr_after (validateRequest ext env perms signerKey apiKey qr m) = qr) \<and>
         (\<forall>key. allowUnsigned p \<and> signerKey = Some key \<longrightarrow>
            err (validateRequest ext env perms signerKey apiKey qr m) \<noteq> Some RequestNotSigned \<and>
            qr_after (validateRequest ext env perms signerKey apiKey qr m) =
              qr\<lparr>Signature :=
                   fst (Sign ext (QueryRequestDigest ext env (QueryRequestBytes qr)) key)\<rparr> \<and>
            (\<forall>sig. Sign ext (QueryRequestDigest ext env (QueryRequestBytes qr)) key = (sig, None)
                 \<and> sig \<noteq> [] \<longrightarrow>
               validateRequest ext env perms signerKey apiKey qr m =
               validateRequest ext env perms signerKey apiKey (qr\<lparr>Signature := sig\<rparr>) m))"
proof (intro conjI impI allI)
  assume a: "\<not> allowUnsigned p \<or> signerKey = None"
  with unsigned have "\<not> proceeds ext env p signerKey qr" by (auto simp: proceeds_def)
  from outcome_stopped [where perms = perms and apiKey = apiKey, OF known this] a
  show "status (validateRequest ext env perms signerKey apiKey qr m) = StatusBadRequest"
    "request (validateRequest ext env perms signerKey apiKey qr m) = None"
    "err (validateRequest ext env perms signerKey apiKey qr m) = Some RequestNotSigned"
    "qr_after (validateRequest ext env perms signerKey apiKey qr m) = qr"
    by simp_all
next
  fix key assume a: "allowUnsigned p \<and> signerKey = Some key"
  show "err (validateRequest ext env perms signerKey apiKey qr m) \<noteq> Some RequestNotSigned"
  proof (cases "proceeds ext env p signerKey qr")
    case True
    have "snd (fst (validatePerChainQueries ext p qs m)) \<noteq> Some RequestNotSigned" for qs
    proof (cases "find (\<lambda>q. \<not> passes ext p q) qs")
      case None
      then show ?thesis by (simp add: loop_status)
    next
      case (Some q)
      then have "\<not> passes ext p q" by (auto simp: find_first_split)
      from rejection_facts(3) [OF this] Some show ?thesis
        by (auto simp: loop_status reason_label_def rejection_label_def split: if_splits)
    qed
    with True known show ?thesis
      by (auto simp add: outcome_proceeds Let_def split: sum.splits option.splits)
  next
    case False
    from outcome_stopped [where perms = perms and apiKey = apiKey, OF known this] a show ?thesis by simp
  qed
  show "qr_after (validateRequest ext env perms signerKey apiKey qr m) =
          qr\<lparr>Signature :=
               fst (Sign ext (QueryRequestDigest ext env (QueryRequestBytes qr)) key)\<rparr>"
  proof (cases "proceeds ext env p signerKey qr")
    case True
    with known a unsigned show ?thesis
      by (simp add: outcome_proceeds cosigned_def Let_def split: sum.splits option.splits)
  next
    case False
    from outcome_stopped [where perms = perms and apiKey = apiKey, OF known this] a unsigned show ?thesis
      by (simp add: cosigned_def)
  qed
next
  fix key sig
  assume a: "allowUnsigned p \<and> signerKey = Some key"
    and s: "Sign ext (QueryRequestDigest ext env (QueryRequestBytes qr)) key = (sig, None)
            \<and> sig \<noteq> []"
  from a s have p1: "proceeds ext env p signerKey qr" by (simp add: proceeds_def)
  from s have p2: "proceeds ext env p signerKey (qr\<lparr>Signature := sig\<rparr>)"
    by (simp add: proceeds_def)
  from a s unsigned have c: "cosigned ext env signerKey qr = qr\<lparr>Signature := sig\<rparr>"
    "cosigned ext env signerKey (qr\<lparr>Signature := sig\<rparr>) = qr\<lparr>Signature := sig\<rparr>"
    by (simp_all add: cosigned_def)
  show "validateRequest ext env perms signerKey apiKey qr m =
        validateRequest ext env perms signerKey apiKey (qr\<lparr>Signature := sig\<rparr>) m"
    unfolding outcome_proceeds [where perms = perms and apiKey = apiKey, OF known p1] outcome_proceeds [where perms = perms and apiKey = apiKey, OF known p2] c by simp
qed

theorem unsigned_request_cosigned_witness:
  "test_perms ''key2'' = Some bob \<and> test_perms ''key1'' = Some alice \<and>
   Signature unsigned_qr = [] \<and> \<not> allowUnsigned bob \<and> allowUnsigned alice \<and>
   status (validateRequest (test_ext (decode_as req_good)) ''devnet'' test_perms (Some [5])
             ''key2'' unsigned_qr m0) = StatusBadRequest \<and>
   qr_after (validateRequest (test_ext (decode_as req_good)) ''devnet'' test_perms (Some [5])
             ''key1'' unsigned_qr m0) =
     unsigned_qr\<lparr>Signature :=
        fst (Sign (test_ext (decode_as req_good))
               (QueryRequestDigest (test_ext (decode_as req_good)) ''devnet''
                  (QueryRequestBytes unsigned_qr)) [5])\<rparr>"
proof -
  have h1: "test_perms ''key2'' = Some bob" by (simp add: test_perms_def)
  have h2: "test_perms ''key1'' = Some alice" by (simp add: test_perms_def)
  have h3: "Signature unsigned_qr = []" by (simp add: unsigned_qr_def)
  have h4: "\<not> allowUnsigned bob" by (simp add: bob_def)
  have h5: "allowUnsigned alice" by (simp add: alice_def)
  from unsigned_request_cosigned [where perms = test_perms and apiKey = "''key2''", OF h1 h3,
      of "Some [5]" "test_ext (decode_as req_good)" "''devnet''" m0] h4
  have a: "status (validateRequest (test_ext (decode_as req_good)) ''devnet'' test_perms
      (Some [5]) ''key2'' unsigned_qr m0) = StatusBadRequest" by blast
  from unsigned_request_cosigned [where perms = test_perms and apiKey = "''key1''", OF h2 h3,
      of "Some [5]" "test_ext (decode_as req_good)" "''devnet''" m0] h5
  have b: "qr_after (validateRequest (test_ext (decode_as req_good)) ''devnet'' test_perms
      (Some [5]) ''key1'' unsigned_qr m0) =
     unsigned_qr\<lparr>Signature :=
        fst (Sign (test_ext (decode_as req_good))
               (QueryRequestDigest (test_ext (decode_as req_good)) ''devnet''
                  (QueryRequestBytes unsigned_qr)) [5])\<rparr>" by blast
  from h1 h2 h3 h4 h5 a b show ?thesis by blast
qed

subsection \<open>Malformed and unsupported requests\<close>




subsection \<open>Metrics\<close>

text \<open>Claim C8, as stated, has the requested-calls counter incremented only for requests
  that are accepted. The account loop pegs it for every call it finds authorized, before it
  looks at the next one, so a request rejected at its second call has already been counted
  once.\<close>

theorem requested_calls_counter_counterexample:
  "status (validateRequest (test_ext (decode_as req_partial)) ''devnet'' test_perms None
             ''key1'' signed_qr m0) = StatusForbidden \<and>
   request (validateRequest (test_ext (decode_as req_partial)) ''devnet'' test_perms None
             ''key1'' signed_qr m0) = None \<and>
   ChainIDString (test_ext (decode_as req_partial)) 1 = ''1'' \<and>
   totalRequestedCallsByChain m0 ''1'' = 0 \<and>
   totalRequestedCallsByChain
     (metrics_after (validateRequest (test_ext (decode_as req_partial)) ''devnet'' test_perms
        None ''key1'' signed_qr m0)) ''1'' = 1"
  by code_simp

text \<open>Claim C8, amended: the status is 200 exactly when no error is returned; every
  rejection increments the failure counter exactly once, under the label of its reason, and
  leaves every other label alone; an accepted request leaves the failure counter unchanged and
  adds to the requested-calls counter of each chain the number of calls the request makes on
  it. The requested-calls counter is pegged inside the authorization loop: once the loop is
  reached, each chain's counter has grown by the number of calls found authorized before the
  loop stopped, also when the request is then rejected; a request rejected before the loop
  leaves it unchanged.\<close>

theorem counters_pegged:
  assumes out: "out = validateRequest ext env perms signerKey apiKey qr m"
  shows "(status out = StatusOK \<longleftrightarrow> err out = None) \<and>
         (\<forall>e. err out = Some e \<longrightarrow>
            invalidQueryRequestReceived (metrics_after out) =
              (invalidQueryRequestReceived m)
                (reason_label e := invalidQueryRequestReceived m (reason_label e) + 1)) \<and>
         (err out = None \<longrightarrow>
            invalidQueryRequestReceived (metrics_after out) = invalidQueryRequestReceived m \<and>
            (\<exists>req. request out = Some req \<and>
               (\<forall>l. totalRequestedCallsByChain (metrics_after out) l =
                  totalRequestedCallsByChain m l +
                  requested_calls ext l (PerChainQueries req)))) \<and>
         (\<forall>p req. perms apiKey = Some p \<and> proceeds ext env p signerKey qr \<and>
            Unmarshal ext (QueryRequestBytes qr) = Inr req \<and> Validate ext req = None \<longrightarrow>
            (\<forall>l. totalRequestedCallsByChain (metrics_after out) l =
               totalRequestedCallsByChain m l +
               pegged_before_stop ext p l (PerChainQueries req))) \<and>
         (\<not> (\<exists>p req. perms apiKey = Some p \<and> proceeds ext env p signerKey qr \<and>
            Unmarshal ext (QueryRequestBytes qr) = Inr req \<and> Validate ext req = None) \<longrightarrow>
            totalRequestedCallsByChain (metrics_after out) = totalRequestedCallsByChain m)"
proof (cases "perms apiKey")
  case None
  then show ?thesis unfolding out by (simp add: outcome_unknown reason_label_def)
next
  case (Some p)
  show ?thesis
  proof (cases "proceeds ext env p signerKey qr")
    case False
    show ?thesis
      unfolding out outcome_stopped [where perms = perms and apiKey = apiKey, OF Some False]
      using Some False by (simp add: reason_label_def)
  next
    case True
    note eq = outcome_proceeds [where perms = perms and apiKey = apiKey, OF Some True]
    show ?thesis
    proof (cases "Unmarshal ext (QueryRequestBytes qr)")
      case (Inl e)
      then show ?thesis unfolding out eq using Some by (simp add: reason_label_def)
    next
      case (Inr req)
      show ?thesis
      proof (cases "Validate ext req")
        case (Some e)
        with Inr show ?thesis unfolding out eq using \<open>perms apiKey = Some p\<close>
          by (simp add: reason_label_def)
      next
        case None
        show ?thesis
        proof (cases "snd (fst (validatePerChainQueries ext p (PerChainQueries req) m))")
          case (Some e)
          from loop_error_label [OF Some] Some Inr None True show ?thesis
            unfolding out eq using \<open>perms apiKey = Some p\<close>
            by (simp add: Let_def loop_total)
        next
          case ok: None
          from loop_no_error [OF ok] have "\<And>l. pegged_before_stop ext p l (PerChainQueries req) =
              requested_calls ext l (PerChainQueries req)" by (rule pegged_all_pass)
          with ok Inr None True show ?thesis
            unfolding out eq using \<open>perms apiKey = Some p\<close> loop_no_error [OF ok]
            by (simp add: Let_def loop_total loop_invalid)
        qed
      qed
    qed
  qed
qed

theorem counters_pegged_witness:
  "err (validateRequest (test_ext (decode_as req_partial)) ''devnet'' test_perms None
          ''key1'' signed_qr m0) =
     Some (CallNotAuthorized ''solAccount:1:BBBBBBBBBBBBBBBBBBBBBBBBBBBBBBBB'') \<and>
   invalidQueryRequestReceived
     (metrics_after (validateRequest (test_ext (decode_as req_partial)) ''devnet'' test_perms
        None ''key1'' signed_qr m0)) =
   (invalidQueryRequestReceived m0)
     (reason_label (CallNotAuthorized ''solAccount:1:BBBBBBBBBBBBBBBBBBBBBBBBBBBBBBBB'') :=
        invalidQueryRequestReceived m0
          (reason_label (CallNotAuthorized ''solAccount:1:BBBBBBBBBBBBBBBBBBBBBBBBBBBBBBBB'')) + 1)"
proof -
  have e: "err (validateRequest (test_ext (decode_as req_partial)) ''devnet'' test_perms None
          ''key1'' signed_qr m0) =
     Some (CallNotAuthorized ''solAccount:1:BBBBBBBBBBBBBBBBBBBBBBBBBBBBBBBB'')"
    by code_simp
  from counters_pegged [OF refl, of "test_ext (decode_as req_partial)" "''devnet''" test_perms
      None "''key1''" signed_qr m0] e
  show ?thesis by blast
qed

subsection \<open>The frame of validateRequest\<close>

text \<open>Claim C9: \<^verbatim>\<open>validateRequest\<close> never changes the request bytes; a request that arrives
  with a non-empty signature is left as it was; and when the request is changed at all, it
  arrived unsigned from a caller with \<^verbatim>\<open>allowUnsigned\<close>, a signer key is configured, and
  the change is the \<^verbatim>\<open>Signature\<close> field now holding what \<^verbatim>\<open>Sign\<close> returned.\<close>

theorem only_signature_mutated:
  "QueryRequestBytes (qr_after (validateRequest ext env perms signerKey apiKey qr m)) =
     QueryRequestBytes qr \<and>
   (Signature qr \<noteq> [] \<longrightarrow>
      qr_after (validateRequest ext env perms signerKey apiKey qr m) = qr) \<and>
   (qr_after (validateRequest ext env perms signerKey apiKey qr m) \<noteq> qr \<longrightarrow>
      Signature qr = [] \<and>
      (\<exists>p key. perms apiKey = Some p \<and> allowUnsigned p \<and> signerKey = Some key \<and>
         qr_after (validateRequest ext env perms signerKey apiKey qr m) =
           qr\<lparr>Signature :=
                fst (Sign ext (QueryRequestDigest ext env (QueryRequestBytes qr)) key)\<rparr>))"
proof (cases "perms apiKey")
  case None
  then show ?thesis by (simp add: outcome_unknown)
next
  case (Some p)
  have q: "qr_after (validateRequest ext env perms signerKey apiKey qr m) =
      (if Signature qr = [] \<and> (\<not> allowUnsigned p \<or> signerKey = None) then qr
       else cosigned ext env signerKey qr)"
  proof (cases "proceeds ext env p signerKey qr")
    case True
    then have n: "\<not> (Signature qr = [] \<and> (\<not> allowUnsigned p \<or> signerKey = None))"
      by (auto simp: proceeds_def)
    have "qr_after (validateRequest ext env perms signerKey apiKey qr m) =
        cosigned ext env signerKey qr"
      unfolding outcome_proceeds [where perms = perms and apiKey = apiKey, OF Some True]
      by (simp add: Let_def split: sum.splits option.splits)
    with n show ?thesis by auto
  next
    case False
    then have "Signature qr = []" by (simp add: proceeds_def)
    with outcome_stopped [where perms = perms and apiKey = apiKey, OF Some False] show ?thesis by simp
  qed
  show ?thesis unfolding q using Some by (auto simp: cosigned_def)
qed

theorem only_signature_mutated_witness:
  "Signature signed_qr \<noteq> [] \<and>
   qr_after (validateRequest (test_ext (decode_as req_good)) ''devnet'' test_perms (Some [5])
      ''key1'' signed_qr m0) = signed_qr \<and>
   QueryRequestBytes (qr_after (validateRequest (test_ext (decode_as req_good)) ''devnet''
      test_perms (Some [5]) ''key1'' unsigned_qr m0)) = QueryRequestBytes unsigned_qr \<and>
   qr_after (validateRequest (test_ext (decode_as req_good)) ''devnet''
      test_perms (Some [5]) ''key1'' unsigned_qr m0) \<noteq> unsigned_qr \<and>
   Signature unsigned_qr = []"
proof -
  have h1: "Signature signed_qr \<noteq> []" by (simp add: signed_qr_def)
  have h2: "qr_after (validateRequest (test_ext (decode_as req_good)) ''devnet''
      test_perms (Some [5]) ''key1'' unsigned_qr m0) \<noteq> unsigned_qr"
    by code_simp
  from only_signature_mutated [of "test_ext (decode_as req_good)" "''devnet''" test_perms
      "Some [5]" "''key1''" signed_qr m0]
    only_signature_mutated [of "test_ext (decode_as req_good)" "''devnet''" test_perms
      "Some [5]" "''key1''" unsigned_qr m0] h1 h2
  show ?thesis by blast
qed

text \<open>Claim C10: when an unsigned request of an \<^verbatim>\<open>allowUnsigned\<close> caller has been co-signed
  with the configured key and is then rejected, the error comes back with the caller's request
  mutated: its \<^verbatim>\<open>Signature\<close> field holds the computed signature, which differs from the
  empty one it arrived with whenever the signature computed is not empty.\<close>

theorem rejected_after_cosigning:
  assumes known: "perms apiKey = Some p" and unsigned: "Signature qr = []"
    and allowed: "allowUnsigned p" and key: "signerKey = Some key"
    and signs: "Sign ext (QueryRequestDigest ext env (QueryRequestBytes qr)) key = (sig, None)"
    and rejected: "status (validateRequest ext env perms signerKey apiKey qr m) \<noteq> StatusOK"
  shows "err (validateRequest ext env perms signerKey apiKey qr m) \<noteq> None \<and>
         request (validateRequest ext env perms signerKey apiKey qr m) = None \<and>
         qr_after (validateRequest ext env perms signerKey apiKey qr m) = qr\<lparr>Signature := sig\<rparr> \<and>
         (sig \<noteq> [] \<longrightarrow>
            Signature (qr_after (validateRequest ext env perms signerKey apiKey qr m)) \<noteq>
            Signature qr)"
proof -
  from allowed key signs have pr: "proceeds ext env p signerKey qr" by (simp add: proceeds_def)
  from unsigned key signs have c: "cosigned ext env signerKey qr = qr\<lparr>Signature := sig\<rparr>"
    by (simp add: cosigned_def)
  from rejected unsigned show ?thesis
    unfolding outcome_proceeds [where perms = perms and apiKey = apiKey, OF known pr] c
    by (simp add: Let_def split: sum.splits option.splits)
qed

theorem rejected_after_cosigning_witness:
  "test_perms ''key1'' = Some alice \<and> Signature unsigned_undecodable_qr = [] \<and>
   allowUnsigned alice \<and>
   Sign (test_ext (decode_as req_good))
     (QueryRequestDigest (test_ext (decode_as req_good)) ''devnet''
        (QueryRequestBytes unsigned_undecodable_qr)) [5] = ([5], None) \<and>
   status (validateRequest (test_ext (decode_as req_good)) ''devnet'' test_perms (Some [5])
      ''key1'' unsigned_undecodable_qr m0) \<noteq> StatusOK \<and>
   err (validateRequest (test_ext (decode_as req_good)) ''devnet'' test_perms (Some [5])
      ''key1'' unsigned_undecodable_qr m0) \<noteq> None \<and>
   qr_after (validateRequest (test_ext (decode_as req_good)) ''devnet'' test_perms (Some [5])
      ''key1'' unsigned_undecodable_qr m0) = unsigned_undecodable_qr\<lparr>Signature := [5]\<rparr>"
proof -
  have h1: "test_perms ''key1'' = Some alice" by (simp add: test_perms_def)
  have h2: "Signature unsigned_undecodable_qr = []" by (simp add: unsigned_undecodable_qr_def)
  have h3: "allowUnsigned alice" by (simp add: alice_def)
  have h4: "Some [5] = Some ([5] :: bytes)" by simp
  have h5: "Sign (test_ext (decode_as req_good))
     (QueryRequestDigest (test_ext (decode_as req_good)) ''devnet''
        (QueryRequestBytes unsigned_undecodable_qr)) [5] = ([5], None)"
    by (simp add: test_ext_def unsigned_undecodable_qr_def)
  have h6: "status (validateRequest (test_ext (decode_as req_good)) ''devnet'' test_perms
      (Some [5]) ''key1'' unsigned_undecodable_qr m0) \<noteq> StatusOK"
    by code_simp
  from rejected_after_cosigning [where perms = test_perms and apiKey = "''key1''",
      OF h1 h2 h3 h4 h5 h6] h1 h2 h3 h5 h6
  show ?thesis by blast
qed

section \<open>Properties of the orchestrator\<close>

subsection \<open>The events seen so far\<close>

lemma submitted_iff:
  "submitted es sr req \<longleftrightarrow> (\<exists>now. NewRequest now sr req \<in> set es)"
proof (induction es)
  case Nil
  then show ?case by (simp add: submitted_def)
next
  case (Cons e es)
  then show ?case by (cases e) (auto simp: submitted_def)
qed

lemma answered_iff:
  "answered cfg es sr i c r \<longleftrightarrow>
     (\<exists>t res. Result t res \<in> set es \<and>
        res_RequestID res = cfg_requestDigest cfg (QueryRequestBytes sr) \<and>
        res_RequestIdx res = i \<and> res_ChainId res = c \<and>
        res_Status res = QuerySuccess \<and> res_Response res = r)"
proof (induction es)
  case Nil
  then show ?case by (simp add: answered_def)
next
  case (Cons e es)
  then show ?case by (cases e) (auto simp: answered_def)
qed

lemma answered_mono: "answered cfg es sr i c r \<Longrightarrow> answered cfg (es @ [e]) sr i c r"
  by (simp add: answered_def)

lemma submitted_mono: "submitted es sr req \<Longrightarrow> submitted (es @ [e]) sr req"
  by (simp add: submitted_def)

lemma sub_ok_mono: "sub_ok cfg es sr qs i s \<Longrightarrow> sub_ok cfg (es @ [e]) sr qs i s"
  unfolding sub_ok_def by (meson answered_mono)

lemma entry_ok_mono: "entry_ok cfg es kp \<Longrightarrow> entry_ok cfg (es @ [e]) kp"
  unfolding entry_ok_def by (meson sub_ok_mono submitted_mono)

lemma pub_ok_mono: "pub_ok cfg es pub \<Longrightarrow> pub_ok cfg (es @ [e]) pub"
  unfolding pub_ok_def by (meson answered_mono submitted_mono)

lemma orch_inv_mono: "orch_inv cfg es st \<Longrightarrow> orch_inv cfg (es @ [e]) st"
  unfolding orch_inv_def by (meson entry_ok_mono pub_ok_mono)

subsection \<open>The store operations keep the invariant\<close>

lemma orch_inv_remove: "orch_inv cfg es st \<Longrightarrow> orch_inv cfg es (removePending rid st)"
  by (auto simp: orch_inv_def removePending_def)

lemma orch_inv_fail: "orch_inv cfg es st \<Longrightarrow> orch_inv cfg es (failRequest rid f st)"
  by (auto simp: orch_inv_def removePending_def failRequest_def)

lemma orch_inv_replace:
  "orch_inv cfg es st \<Longrightarrow> entry_ok cfg es (rid, pq) \<Longrightarrow>
   orch_inv cfg es (replacePending rid pq st)"
  by (auto simp: orch_inv_def replacePending_def split: if_splits)

lemma orch_inv_dispatched:
  "orch_inv cfg es (st\<lparr>dispatched := d\<rparr>) = orch_inv cfg es st"
  by (simp add: orch_inv_def)

lemma orch_inv_failures:
  "orch_inv cfg es (st\<lparr>failures := d\<rparr>) = orch_inv cfg es st"
  by (simp add: orch_inv_def)

lemma subs_ok_update:
  assumes "\<forall>j < length ss. sub_ok cfg es sr qs j (ss ! j)"
    and "i < length ss \<Longrightarrow> sub_ok cfg es sr qs i s"
  shows "\<forall>j < length (ss[i := s]). sub_ok cfg es sr qs j (ss[i := s] ! j)"
proof (intro allI impI)
  fix j assume "j < length (ss[i := s])"
  then have j: "j < length ss" by simp
  show "sub_ok cfg es sr qs j (ss[i := s] ! j)"
  proof (cases "j = i")
    case True
    with j assms(2) show ?thesis by simp
  next
    case False
    with j assms(1) show ?thesis by simp
  qed
qed

lemma entry_ok_countRetry:
  assumes "entry_ok cfg es (rid, pq)"
  shows "entry_ok cfg es (rid, countRetry i pq)"
proof -
  let ?ss = "pq_perChainState pq"
  let ?s = "(?ss ! i)\<lparr>pcs_retryCount := pcs_retryCount (?ss ! i) + 1\<rparr>"
  from assms have all: "\<forall>j < length ?ss.
      sub_ok cfg es (pq_signedRequest pq) (PerChainQueries (pq_queryRequest pq)) j (?ss ! j)"
    by (simp add: entry_ok_def)
  have "sub_ok cfg es (pq_signedRequest pq) (PerChainQueries (pq_queryRequest pq)) i ?s"
    if "i < length ?ss"
    using all that by (simp add: sub_ok_def)
  from subs_ok_update [OF all this] assms show ?thesis
    by (simp add: entry_ok_def countRetry_def)
qed

lemma entry_ok_lastRetryAt:
  "entry_ok cfg es (rid, pq\<lparr>pq_lastRetryAt := t\<rparr>) = entry_ok cfg es (rid, pq)"
  by (simp add: entry_ok_def)

lemma entry_ok_fold_countRetry:
  "entry_ok cfg es (rid, pq) \<Longrightarrow> entry_ok cfg es (rid, fold countRetry is pq)"
  by (induction "is" arbitrary: pq) (simp_all add: entry_ok_countRetry)

lemma entry_ok_retryUnfinished:
  "entry_ok cfg es (rid, pq) \<Longrightarrow> entry_ok cfg es (rid, retryUnfinished now pq)"
  by (simp add: retryUnfinished_def entry_ok_lastRetryAt entry_ok_fold_countRetry)

lemma entry_ok_recordSuccess:
  assumes ok: "entry_ok cfg es (rid, pq)"
    and chain: "recordedChain pq i = Some c"
    and ans: "answered cfg es (pq_signedRequest pq) i c r"
  shows "entry_ok cfg es (rid, recordSuccess i r pq)"
proof -
  let ?ss = "pq_perChainState pq"
  let ?qs = "PerChainQueries (pq_queryRequest pq)"
  let ?s = "(?ss ! i)\<lparr>pcs_status := Success, pcs_result := Some r\<rparr>"
  from ok have all: "\<forall>j < length ?ss. sub_ok cfg es (pq_signedRequest pq) ?qs j (?ss ! j)"
    by (simp add: entry_ok_def)
  from chain have i: "i < length ?ss" and c: "pcs_chainId (?ss ! i) = c"
    by (simp_all add: recordedChain_def split: if_splits)
  from all i c ans have "sub_ok cfg es (pq_signedRequest pq) ?qs i ?s"
    by (auto simp: sub_ok_def)
  from subs_ok_update [OF all this] ok show ?thesis
    by (simp add: entry_ok_def recordSuccess_def)
qed

lemma map_filter_all_some:
  assumes "\<forall>j < length ss. \<exists>r. f (ss ! j) = Some r"
  shows "length (List.map_filter f ss) = length ss"
    and "\<forall>j < length ss. f (ss ! j) = Some (List.map_filter f ss ! j)"
proof -
  have "List.map_filter f ss = map (the \<circ> f) ss"
    using assms
  proof (induction ss)
    case Nil
    then show ?case by (simp add: List.map_filter_simps)
  next
    case (Cons a ss)
    from Cons.prems have "\<exists>r. f ((a # ss) ! 0) = Some r" by blast
    then obtain r where r: "f a = Some r" by auto
    from Cons.prems have "\<forall>j < length ss. \<exists>r. f (ss ! j) = Some r" by fastforce
    with Cons.IH r show ?case by (simp add: List.map_filter_simps)
  qed
  then show "length (List.map_filter f ss) = length ss"
    and "\<forall>j < length ss. f (ss ! j) = Some (List.map_filter f ss ! j)"
    using assms by auto
qed

lemma pub_ok_publicationOf:
  assumes ok: "entry_ok cfg es (rid, pq)" and fin: "allSucceeded pq"
  shows "pub_ok cfg es (publicationOf pq)"
proof -
  let ?ss = "pq_perChainState pq"
  let ?qs = "PerChainQueries (pq_queryRequest pq)"
  from ok have len: "length ?ss = length ?qs"
    and sub: "submitted es (pq_signedRequest pq) (pq_queryRequest pq)"
    and all: "\<forall>j < length ?ss. sub_ok cfg es (pq_signedRequest pq) ?qs j (?ss ! j)"
    by (simp_all add: entry_ok_def)
  from fin have succ: "\<forall>j < length ?ss. pcs_status (?ss ! j) = Success"
    by (simp add: allSucceeded_def list_all_length)
  with all have some: "\<forall>j < length ?ss. \<exists>r. pcs_result (?ss ! j) = Some r"
    by (auto simp: sub_ok_def)
  note mf = map_filter_all_some [OF some]
  have "answered cfg es (pq_signedRequest pq) j (ChainId (?qs ! j))
          (List.map_filter pcs_result ?ss ! j)" if "j < length ?qs" for j
  proof -
    from that len have j: "j < length ?ss" by simp
    with all succ obtain r where "pcs_result (?ss ! j) = Some r"
      "answered cfg es (pq_signedRequest pq) j (ChainId (?qs ! j)) r"
      by (auto simp: sub_ok_def)
    with mf(2) j show ?thesis by simp
  qed
  with sub len mf(1) show ?thesis
    unfolding pub_ok_def publicationOf_def by auto
qed

lemma entry_ok_initial:
  "entry_ok cfg (es @ [NewRequest now sr req])
     (cfg_requestDigest cfg (QueryRequestBytes sr),
      \<lparr>pq_requestID = cfg_requestDigest cfg (QueryRequestBytes sr), pq_signedRequest = sr,
       pq_queryRequest = req, pq_perChainState = initialPerChainState (PerChainQueries req),
       pq_createdAt = now, pq_lastRetryAt = now\<rparr>)"
  by (simp add: entry_ok_def submitted_def initialPerChainState_def sub_ok_def nth_enumerate_eq)

subsection \<open>Every event keeps the invariant\<close>

lemma orch_inv_handleRequest:
  assumes "orch_inv cfg es st"
  shows "orch_inv cfg (es @ [NewRequest now sr req]) (handleRequest cfg now sr req st)"
proof -
  from assms have m: "orch_inv cfg (es @ [NewRequest now sr req]) st" by (rule orch_inv_mono)
  then show ?thesis
    using entry_ok_initial [of cfg es now sr req]
    by (auto simp: handleRequest_def Let_def orch_inv_def)
qed

lemma orch_inv_handleResponse:
  assumes "orch_inv cfg es st"
  shows "orch_inv cfg (es @ [Result now res]) (handleResponse cfg now res st)"
proof -
  let ?es = "es @ [Result now res]"
  from assms have m: "orch_inv cfg ?es st" by (rule orch_inv_mono)
  show ?thesis
  proof (cases "map_of (pending st) (res_RequestID res)")
    case None
    with m show ?thesis by (simp add: handleResponse_def)
  next
    case (Some pq)
    then have "(res_RequestID res, pq) \<in> set (pending st)" by (rule map_of_SomeD)
    with m have ok: "entry_ok cfg ?es (res_RequestID res, pq)" by (auto simp: orch_inv_def)
    show ?thesis
    proof (cases "recordedChain pq (res_RequestIdx res) = Some (res_ChainId res)")
      case False
      with Some m show ?thesis by (simp add: handleResponse_def Let_def orch_inv_fail)
    next
      case True
      show ?thesis
      proof (cases "res_Status res")
        case QueryFatalError
        with Some True m show ?thesis by (simp add: handleResponse_def Let_def orch_inv_fail)
      next
        case QueryRetryNeeded
        from ok have "entry_ok cfg ?es (res_RequestID res, countRetry (res_RequestIdx res) pq)"
          by (rule entry_ok_countRetry)
        with QueryRetryNeeded Some True m show ?thesis
          by (simp add: handleResponse_def Let_def orch_inv_replace orch_inv_dispatched
              entry_ok_lastRetryAt)
      next
        case QuerySuccess
        from ok have rid: "res_RequestID res =
            cfg_requestDigest cfg (QueryRequestBytes (pq_signedRequest pq))"
          by (simp add: entry_ok_def)
        with QuerySuccess have "answered cfg ?es (pq_signedRequest pq) (res_RequestIdx res)
            (res_ChainId res) (res_Response res)"
          by (simp add: answered_def)
        from entry_ok_recordSuccess [OF ok True this]
        have ok': "entry_ok cfg ?es
            (res_RequestID res, recordSuccess (res_RequestIdx res) (res_Response res) pq)" .
        show ?thesis
        proof (cases "pcs_status (pq_perChainState pq ! res_RequestIdx res) = Success")
          case True
          with QuerySuccess Some \<open>recordedChain pq (res_RequestIdx res) = Some (res_ChainId res)\<close>
            m show ?thesis by (simp add: handleResponse_def Let_def)
        next
          case False
          show ?thesis
          proof (cases "allSucceeded
              (recordSuccess (res_RequestIdx res) (res_Response res) pq)")
            case True
            from pub_ok_publicationOf [OF ok' True] orch_inv_remove [OF m]
            have "orch_inv cfg ?es ((removePending (res_RequestID res) st)
                \<lparr>published := published st @ [publicationOf
                   (recordSuccess (res_RequestIdx res) (res_Response res) pq)]\<rparr>)"
              by (auto simp: orch_inv_def removePending_def)
            with True False QuerySuccess Some
              \<open>recordedChain pq (res_RequestIdx res) = Some (res_ChainId res)\<close>
            show ?thesis by (simp add: handleResponse_def Let_def)
          next
            case nd: False
            from orch_inv_replace [OF m ok'] nd False QuerySuccess Some
              \<open>recordedChain pq (res_RequestIdx res) = Some (res_ChainId res)\<close>
            show ?thesis by (simp add: handleResponse_def Let_def)
          qed
        qed
      qed
    qed
  qed
qed

lemma orch_inv_sweepPending:
  assumes "orch_inv cfg es st" and "\<forall>kp \<in> set l. entry_ok cfg es kp"
  shows "orch_inv cfg es (sweepPending cfg now l st)"
  using assms
proof (induction l arbitrary: st)
  case Nil
  then show ?case by simp
next
  case (Cons kp l)
  obtain rid pq where kp: "kp = (rid, pq)" by (cases kp)
  from Cons.prems kp have ok: "entry_ok cfg es (rid, pq)" by simp
  let ?st' = "if pq_createdAt pq + cfg_requestTimeout cfg < now then failRequest rid Timeout st
        else if pq_lastRetryAt pq + cfg_retryInterval cfg < now
        then (replacePending rid (retryUnfinished now pq) st)
               \<lparr>dispatched := dispatched st @
                   map (dispatchOf rid (pq_queryRequest pq)) (unfinished pq)\<rparr>
        else st"
  from Cons.prems(1) ok have "orch_inv cfg es ?st'"
    by (simp add: orch_inv_fail orch_inv_replace orch_inv_dispatched entry_ok_retryUnfinished)
  moreover from Cons.prems have "\<forall>kp \<in> set l. entry_ok cfg es kp" by simp
  ultimately have "orch_inv cfg es (sweepPending cfg now l ?st')" by (rule Cons.IH)
  with kp show ?case by simp
qed

lemma orch_inv_handleAuditSweep:
  assumes "orch_inv cfg es st"
  shows "orch_inv cfg (es @ [AuditSweep now]) (handleAuditSweep cfg now st)"
proof -
  from assms have m: "orch_inv cfg (es @ [AuditSweep now]) st" by (rule orch_inv_mono)
  then have "\<forall>kp \<in> set (pending st). entry_ok cfg (es @ [AuditSweep now]) kp"
    by (simp add: orch_inv_def)
  with m show ?thesis
    unfolding handleAuditSweep_def by (rule orch_inv_sweepPending)
qed

lemma orch_inv_handleEvent:
  "orch_inv cfg es st \<Longrightarrow> orch_inv cfg (es @ [e]) (handleEvent cfg st e)"
  by (cases e)
     (simp_all add: orch_inv_handleRequest orch_inv_handleResponse orch_inv_handleAuditSweep)

lemma orch_inv_run:
  "orch_inv cfg [] initialOrchestrator \<and>
   orch_inv cfg es (runOrchestrator cfg es initialOrchestrator)"
proof (induction es rule: rev_induct)
  case Nil
  show ?case by (simp add: orch_inv_def initialOrchestrator_def runOrchestrator_def)
next
  case (snoc e es)
  then have "orch_inv cfg (es @ [e])
      (handleEvent cfg (runOrchestrator cfg es initialOrchestrator) e)"
    by (simp add: orch_inv_handleEvent)
  with snoc show ?case by (simp add: runOrchestrator_def)
qed

subsection \<open>Responses align with queries\<close>

text \<open>Claim C2: whatever the events and their order, every publication the orchestrator has
  produced carries the signed request of a submitted request, has as many responses as that
  request has per-chain queries, and its response at each position \<open>i\<close> is the result a
  watcher reported with success for that request at index \<open>i\<close> on the chain of query \<open>i\<close>.\<close>

theorem responses_align_with_queries:
  assumes "pub \<in> set (published (runOrchestrator cfg es initialOrchestrator))"
  shows "\<exists>now req. NewRequest now (pub_Request pub) req \<in> set es \<and>
           length (pub_PerChainResponses pub) = length (PerChainQueries req) \<and>
           (\<forall>i < length (PerChainQueries req).
              \<exists>t res. Result t res \<in> set es \<and>
                res_RequestID res =
                  cfg_requestDigest cfg (QueryRequestBytes (pub_Request pub)) \<and>
                res_RequestIdx res = i \<and>
                res_ChainId res = ChainId (PerChainQueries req ! i) \<and>
                res_Status res = QuerySuccess \<and>
                res_Response res = pub_PerChainResponses pub ! i)"
proof -
  from orch_inv_run [of cfg es] assms have "pub_ok cfg es pub" by (simp add: orch_inv_def)
  then obtain req where sub: "submitted es (pub_Request pub) req"
    and len: "length (pub_PerChainResponses pub) = length (PerChainQueries req)"
    and ans: "\<forall>i < length (PerChainQueries req).
           answered cfg es (pub_Request pub) i (ChainId (PerChainQueries req ! i))
             (pub_PerChainResponses pub ! i)"
    unfolding pub_ok_def by blast
  from sub obtain now where new: "NewRequest now (pub_Request pub) req \<in> set es"
    by (auto simp: submitted_iff)
  have "\<exists>t res. Result t res \<in> set es \<and>
                res_RequestID res =
                  cfg_requestDigest cfg (QueryRequestBytes (pub_Request pub)) \<and>
                res_RequestIdx res = i \<and>
                res_ChainId res = ChainId (PerChainQueries req ! i) \<and>
                res_Status res = QuerySuccess \<and>
                res_Response res = pub_PerChainResponses pub ! i"
    if "i < length (PerChainQueries req)" for i
    using ans that by (simp add: answered_iff)
  with new len show ?thesis by blast
qed

theorem responses_align_with_queries_witness:
  "published (runOrchestrator test_cfg out_of_order_events initialOrchestrator) =
     [two_chain_pub] \<and>
   (\<exists>now req. NewRequest now (pub_Request two_chain_pub) req \<in> set out_of_order_events \<and>
      length (pub_PerChainResponses two_chain_pub) = length (PerChainQueries req) \<and>
      (\<forall>i < length (PerChainQueries req).
         \<exists>t res. Result t res \<in> set out_of_order_events \<and>
           res_RequestID res =
             cfg_requestDigest test_cfg (QueryRequestBytes (pub_Request two_chain_pub)) \<and>
           res_RequestIdx res = i \<and>
           res_ChainId res = ChainId (PerChainQueries req ! i) \<and>
           res_Status res = QuerySuccess \<and>
           res_Response res = pub_PerChainResponses two_chain_pub ! i))"
proof -
  have p: "published (runOrchestrator test_cfg out_of_order_events initialOrchestrator) =
     [two_chain_pub]"
    by code_simp
  then have "two_chain_pub \<in>
      set (published (runOrchestrator test_cfg out_of_order_events initialOrchestrator))"
    by simp
  from responses_align_with_queries [OF this] p show ?thesis by blast
qed

subsection \<open>A result for the wrong chain\<close>

lemma map_of_removed: "map_of (filter (\<lambda>(k, pq). k \<noteq> rid) l) rid = None"
  by (induction l) auto

lemma pending_after_fail: "map_of (pending (failRequest rid f st)) rid = None"
  by (simp add: failRequest_def removePending_def map_of_removed)

lemma handleResponse_unknown:
  "map_of (pending st) (res_RequestID res) = None \<Longrightarrow> handleResponse cfg now res st = st"
  by (simp add: handleResponse_def)

lemma absent_iff: "map_of (pending st) rid = None \<longleftrightarrow> rid \<notin> fst ` set (pending st)"
  by (rule map_of_eq_None_iff)

lemma signedRequest_countRetry [simp]:
  "pq_signedRequest (countRetry i pq) = pq_signedRequest pq"
  by (simp add: countRetry_def)

lemma signedRequest_recordSuccess [simp]:
  "pq_signedRequest (recordSuccess i r pq) = pq_signedRequest pq"
  by (simp add: recordSuccess_def)

lemma signedRequest_retryUnfinished [simp]:
  "pq_signedRequest (retryUnfinished now pq) = pq_signedRequest pq"
proof -
  have "pq_signedRequest (fold countRetry is pq) = pq_signedRequest pq" for "is"
    by (induction "is" arbitrary: pq) simp_all
  then show ?thesis by (simp add: retryUnfinished_def)
qed

lemma keyed_remove: "keyed cfg st \<Longrightarrow> keyed cfg (removePending r st)"
  by (simp add: keyed_def removePending_def list_all_iff)

lemma keyed_fail: "keyed cfg st \<Longrightarrow> keyed cfg (failRequest r f st)"
  by (simp add: keyed_def failRequest_def removePending_def list_all_iff)

lemma keyed_replace:
  "keyed cfg st \<Longrightarrow> r = cfg_requestDigest cfg (QueryRequestBytes (pq_signedRequest pq)) \<Longrightarrow>
   keyed cfg (replacePending r pq st)"
  by (auto simp: keyed_def replacePending_def list_all_iff)

lemma keyed_lookup:
  "keyed cfg st \<Longrightarrow> map_of (pending st) r = Some pq \<Longrightarrow>
   r = cfg_requestDigest cfg (QueryRequestBytes (pq_signedRequest pq))"
  by (auto simp: keyed_def list_all_iff dest!: map_of_SomeD)

lemma absent_remove:
  "rid \<notin> fst ` set (pending st) \<Longrightarrow> rid \<notin> fst ` set (pending (removePending r st))"
  by (force simp: removePending_def)

lemma absent_fail:
  "rid \<notin> fst ` set (pending st) \<Longrightarrow> rid \<notin> fst ` set (pending (failRequest r f st))"
  by (force simp: failRequest_def removePending_def)

lemma keys_replace:
  "map fst (pending (replacePending r pq st)) = map fst (pending st)"
  by (simp add: replacePending_def o_def split_def)

lemma absent_replace:
  assumes "rid \<notin> fst ` set (pending st)"
  shows "rid \<notin> fst ` set (pending (replacePending r pq st))"
proof -
  have "set (map fst (pending (replacePending r pq st))) = set (map fst (pending st))"
    by (simp only: keys_replace)
  then have "fst ` set (pending (replacePending r pq st)) = fst ` set (pending st)"
    by (simp only: set_map)
  with assms show ?thesis by blast
qed

lemma published_fail [simp]: "published (failRequest r f st) = published st"
  by (simp add: failRequest_def removePending_def)

lemma published_replace [simp]: "published (replacePending r pq st) = published st"
  by (simp add: replacePending_def)

lemma published_remove [simp]: "published (removePending r st) = published st"
  by (simp add: removePending_def)

text \<open>While a request is neither pending nor submitted again, no event brings it back into
  the store or publishes anything for it.\<close>

lemma abandoned_handleRequest:
  assumes "abandoned cfg rid st" and "cfg_requestDigest cfg (QueryRequestBytes sr) \<noteq> rid"
  shows "abandoned cfg rid (handleRequest cfg now sr req st) \<and>
         published (handleRequest cfg now sr req st) = published st"
  using assms
  by (auto simp: abandoned_def handleRequest_def Let_def keyed_def)

lemma abandoned_handleResponse:
  assumes ab: "abandoned cfg rid st"
  shows "abandoned cfg rid (handleResponse cfg now res st) \<and>
         publicationsOf cfg rid (handleResponse cfg now res st) = publicationsOf cfg rid st"
proof (cases "map_of (pending st) (res_RequestID res)")
  case None
  with ab show ?thesis by (simp add: handleResponse_def)
next
  case (Some pq)
  from ab have k: "keyed cfg st" and a: "rid \<notin> fst ` set (pending st)"
    by (simp_all add: abandoned_def)
  from keyed_lookup [OF k Some]
  have key: "res_RequestID res = cfg_requestDigest cfg (QueryRequestBytes (pq_signedRequest pq))" .
  from Some a have other: "res_RequestID res \<noteq> rid"
    by (auto dest!: map_of_SomeD simp: image_iff)
  have fail: "abandoned cfg rid (failRequest (res_RequestID res) f st) \<and>
      publicationsOf cfg rid (failRequest (res_RequestID res) f st) = publicationsOf cfg rid st"
    for f
    using keyed_fail [OF k] absent_fail [OF a]
    by (simp add: abandoned_def publicationsOf_def)
  have repl: "abandoned cfg rid (replacePending (res_RequestID res) pq' st) \<and>
      publicationsOf cfg rid (replacePending (res_RequestID res) pq' st) =
      publicationsOf cfg rid st"
    if "pq_signedRequest pq' = pq_signedRequest pq" for pq'
    using keyed_replace [OF k, of "res_RequestID res" pq'] absent_replace [OF a] key that
    by (simp add: abandoned_def publicationsOf_def)
  have redis: "abandoned cfg rid ((replacePending (res_RequestID res) pq' st)\<lparr>dispatched := d\<rparr>) \<and>
      publicationsOf cfg rid ((replacePending (res_RequestID res) pq' st)\<lparr>dispatched := d\<rparr>) =
      publicationsOf cfg rid st"
    if "pq_signedRequest pq' = pq_signedRequest pq" for pq' d
    using repl [OF that] by (simp add: abandoned_def keyed_def publicationsOf_def)
  have publ: "abandoned cfg rid ((removePending (res_RequestID res) st)
        \<lparr>published := published st @ [publicationOf pq']\<rparr>) \<and>
      publicationsOf cfg rid ((removePending (res_RequestID res) st)
        \<lparr>published := published st @ [publicationOf pq']\<rparr>) = publicationsOf cfg rid st"
    if "pq_signedRequest pq' = pq_signedRequest pq" for pq'
    using k a key other that keyed_remove [OF k, of "res_RequestID res"]
      absent_remove [OF a, of "res_RequestID res"]
    by (simp add: abandoned_def keyed_def publicationsOf_def publicationOf_def)
  show ?thesis
  proof (cases "recordedChain pq (res_RequestIdx res) = Some (res_ChainId res)")
    case False
    with Some fail show ?thesis by (simp add: handleResponse_def Let_def)
  next
    case True
    show ?thesis
    proof (cases "res_Status res")
      case QueryFatalError
      with Some True fail show ?thesis by (simp add: handleResponse_def Let_def)
    next
      case QueryRetryNeeded
      with Some True ab repl redis show ?thesis
        by (simp add: handleResponse_def Let_def)
    next
      case QuerySuccess
      with Some True ab repl publ show ?thesis
        by (simp add: handleResponse_def Let_def)
    qed
  qed
qed

lemma abandoned_sweepPending:
  assumes "abandoned cfg rid st"
    and "list_all (\<lambda>kp. fst kp = cfg_requestDigest cfg (QueryRequestBytes (pq_signedRequest (snd kp)))) l"
  shows "abandoned cfg rid (sweepPending cfg now l st) \<and>
         published (sweepPending cfg now l st) = published st"
  using assms
proof (induction l arbitrary: st)
  case Nil
  then show ?case by simp
next
  case (Cons kp l)
  obtain r pq where kp: "kp = (r, pq)" by (cases kp)
  from Cons.prems kp have key: "r = cfg_requestDigest cfg (QueryRequestBytes (pq_signedRequest pq))"
    and rest: "list_all (\<lambda>kp. fst kp =
        cfg_requestDigest cfg (QueryRequestBytes (pq_signedRequest (snd kp)))) l"
    by simp_all
  let ?st' = "if pq_createdAt pq + cfg_requestTimeout cfg < now then failRequest r Timeout st
        else if pq_lastRetryAt pq + cfg_retryInterval cfg < now
        then (replacePending r (retryUnfinished now pq) st)
               \<lparr>dispatched := dispatched st @
                   map (dispatchOf r (pq_queryRequest pq)) (unfinished pq)\<rparr>
        else st"
  from Cons.prems(1) have k: "keyed cfg st" and a: "rid \<notin> fst ` set (pending st)"
    by (simp_all add: abandoned_def)
  have "keyed cfg (replacePending r (retryUnfinished now pq) st)"
    by (rule keyed_replace [OF k]) (simp add: key)
  then have "keyed cfg ((replacePending r (retryUnfinished now pq) st)\<lparr>dispatched := d\<rparr>)" for d
    by (simp add: keyed_def)
  moreover have "rid \<notin> fst ` set (pending
      ((replacePending r (retryUnfinished now pq) st)\<lparr>dispatched := d\<rparr>))" for d
    using absent_replace [OF a, of r "retryUnfinished now pq"] by simp
  ultimately have ab': "abandoned cfg rid ?st'"
    using k a keyed_fail [OF k, of r Timeout] absent_fail [OF a, of r Timeout]
    by (simp add: abandoned_def)
  have pub': "published ?st' = published st"
    by simp
  from Cons.IH [OF ab' rest] pub' kp show ?case by simp
qed

lemma abandoned_handleEvent:
  assumes ab: "abandoned cfg rid st" and e: "\<not> submits cfg rid e"
  shows "abandoned cfg rid (handleEvent cfg st e) \<and>
         publicationsOf cfg rid (handleEvent cfg st e) = publicationsOf cfg rid st"
proof (cases e)
  case (NewRequest t sr req)
  with e have "cfg_requestDigest cfg (QueryRequestBytes sr) \<noteq> rid" by (simp add: submits_def)
  from abandoned_handleRequest [OF ab this] NewRequest show ?thesis
    by (simp add: publicationsOf_def)
next
  case (Result t res)
  with abandoned_handleResponse [OF ab] show ?thesis by simp
next
  case (AuditSweep t)
  from ab have "list_all (\<lambda>kp. fst kp =
      cfg_requestDigest cfg (QueryRequestBytes (pq_signedRequest (snd kp)))) (pending st)"
    by (simp add: abandoned_def keyed_def)
  from abandoned_sweepPending [OF ab this] AuditSweep show ?thesis
    by (simp add: handleAuditSweep_def publicationsOf_def)
qed

lemma abandoned_run:
  "abandoned cfg rid st \<Longrightarrow> list_all (\<lambda>e. \<not> submits cfg rid e) es \<Longrightarrow>
   abandoned cfg rid (runOrchestrator cfg es st) \<and>
   publicationsOf cfg rid (runOrchestrator cfg es st) = publicationsOf cfg rid st"
proof (induction es arbitrary: st)
  case Nil
  then show ?case by (simp add: runOrchestrator_def)
next
  case (Cons e es)
  from Cons.prems have e: "\<not> submits cfg rid e"
    and rest: "list_all (\<lambda>e. \<not> submits cfg rid e) es" by simp_all
  from abandoned_handleEvent [OF Cons.prems(1) e]
  have ab: "abandoned cfg rid (handleEvent cfg st e)"
    and pub: "publicationsOf cfg rid (handleEvent cfg st e) = publicationsOf cfg rid st"
    by simp_all
  from Cons.IH [OF ab rest] pub show ?case by (simp add: runOrchestrator_def)
qed

lemma keyed_reachable: "keyed cfg (runOrchestrator cfg es initialOrchestrator)"
proof -
  from orch_inv_run [of cfg es]
  have "\<forall>kp \<in> set (pending (runOrchestrator cfg es initialOrchestrator)). entry_ok cfg es kp"
    by (simp add: orch_inv_def)
  then show ?thesis by (simp add: keyed_def list_all_iff entry_ok_def)
qed

text \<open>Claim C6: a result for a request pending in a reachable store, naming a chain that is
  not the chain recorded for its request index, is fatal to the whole request. What the code
  under \<^verbatim>\<open>GuardianOptionWatchers\<close> does with it: the forwarder compares the chain of the
  result with the chain of the watcher it came from, and on a difference \<^verbatim>\<open>logger.Fatal\<close>
  ends the process, and with it every request; this is the case whenever the result comes from
  the watcher of the chain recorded for the sub-query. A result that names its own watcher's
  chain passes the forwarder, and the control loop then fails the request: it is removed from
  the store, a chain-mismatch failure is surfaced, nothing is published or dispatched, every
  later result for the request is dropped, and whatever events follow, short of the request
  being submitted again, the request is never pending again and no publication is made for
  it.\<close>

theorem chain_mismatch_is_fatal:
  assumes reach: "st = runOrchestrator cfg es0 initialOrchestrator"
    and pend: "map_of (pending st) (res_RequestID res) = Some pq"
    and mismatch: "recordedChain pq (res_RequestIdx res) \<noteq> Some (res_ChainId res)"
    and later: "list_all (\<lambda>e. \<not> submits cfg (res_RequestID res) e) es"
  shows "(res_ChainId res \<noteq> watcherChain \<longrightarrow>
            deliverResult cfg now watcherChain res st = Exited) \<and>
         (recordedChain pq (res_RequestIdx res) = Some watcherChain \<longrightarrow>
            deliverResult cfg now watcherChain res st = Exited) \<and>
         (res_ChainId res = watcherChain \<longrightarrow>
            (\<exists>st'. deliverResult cfg now watcherChain res st = Running st' \<and>
               failures st' = failures st @ [(res_RequestID res, ChainMismatch)] \<and>
               published st' = published st \<and> dispatched st' = dispatched st \<and>
               map_of (pending st') (res_RequestID res) = None \<and>
               (\<forall>now' res'. res_RequestID res' = res_RequestID res \<longrightarrow>
                  handleResponse cfg now' res' st' = st') \<and>
               map_of (pending (runOrchestrator cfg es st')) (res_RequestID res) = None \<and>
               publicationsOf cfg (res_RequestID res) (runOrchestrator cfg es st') =
                 publicationsOf cfg (res_RequestID res) st))"
proof (intro conjI impI)
  assume "res_ChainId res \<noteq> watcherChain"
  then show "deliverResult cfg now watcherChain res st = Exited"
    by (simp add: deliverResult_def forwardQueryResponse_def)
next
  assume "recordedChain pq (res_RequestIdx res) = Some watcherChain"
  with mismatch have "res_ChainId res \<noteq> watcherChain" by auto
  then show "deliverResult cfg now watcherChain res st = Exited"
    by (simp add: deliverResult_def forwardQueryResponse_def)
next
  assume same: "res_ChainId res = watcherChain"
  let ?rid = "res_RequestID res"
  let ?st' = "failRequest ?rid ChainMismatch st"
  from pend mismatch have h: "handleResponse cfg now res st = ?st'"
    by (simp add: handleResponse_def Let_def)
  with same have run: "deliverResult cfg now watcherChain res st = Running ?st'"
    by (simp add: deliverResult_def forwardQueryResponse_def)
  have fields: "failures ?st' = failures st @ [(?rid, ChainMismatch)]"
    "published ?st' = published st" "dispatched ?st' = dispatched st"
    by (simp_all add: failRequest_def removePending_def)
  have gone: "map_of (pending ?st') ?rid = None" by (rule pending_after_fail)
  then have dropped: "\<forall>now' res'. res_RequestID res' = ?rid \<longrightarrow>
      handleResponse cfg now' res' ?st' = ?st'"
    by (simp add: handleResponse_unknown)
  from reach have "keyed cfg st" by (simp add: keyed_reachable)
  then have "keyed cfg ?st'" by (rule keyed_fail)
  moreover have "?rid \<notin> fst ` set (pending ?st')"
    using pending_after_fail [of ?rid ChainMismatch st] by (simp add: absent_iff)
  ultimately have "abandoned cfg ?rid ?st'" by (simp add: abandoned_def)
  from abandoned_run [OF this later]
  have "map_of (pending (runOrchestrator cfg es ?st')) ?rid = None"
    and "publicationsOf cfg ?rid (runOrchestrator cfg es ?st') = publicationsOf cfg ?rid ?st'"
    by (simp_all add: abandoned_def absent_iff)
  then have "map_of (pending (runOrchestrator cfg es ?st')) ?rid = None"
    and "publicationsOf cfg ?rid (runOrchestrator cfg es ?st') = publicationsOf cfg ?rid st"
    using fields(2) by (simp_all add: publicationsOf_def)
  with fields run gone dropped
  show "\<exists>st'. deliverResult cfg now watcherChain res st = Running st' \<and>
               failures st' = failures st @ [(?rid, ChainMismatch)] \<and>
               published st' = published st \<and> dispatched st' = dispatched st \<and>
               map_of (pending st') ?rid = None \<and>
               (\<forall>now' res'. res_RequestID res' = ?rid \<longrightarrow>
                  handleResponse cfg now' res' st' = st') \<and>
               map_of (pending (runOrchestrator cfg es st')) ?rid = None \<and>
               publicationsOf cfg ?rid (runOrchestrator cfg es st') = publicationsOf cfg ?rid st"
    by blast
qed

theorem chain_mismatch_is_fatal_witness:
  "mismatch_state =
     runOrchestrator test_cfg
       [NewRequest 0 two_chain_sr two_chain_req,
        Result 3 (result_for 1 2 QuerySuccess [0xB2])] initialOrchestrator \<and>
   map_of (pending mismatch_state) (res_RequestID (result_for 0 2 QuerySuccess [0xA1])) \<noteq> None \<and>
   recordedChain
     (the (map_of (pending mismatch_state) (res_RequestID (result_for 0 2 QuerySuccess [0xA1]))))
     (res_RequestIdx (result_for 0 2 QuerySuccess [0xA1])) = Some 1 \<and>
   res_ChainId (result_for 0 2 QuerySuccess [0xA1]) = 2 \<and>
   list_all (\<lambda>e. \<not> submits test_cfg (res_RequestID (result_for 0 2 QuerySuccess [0xA1])) e)
     later_events \<and>
   deliverResult test_cfg 5 1 (result_for 0 2 QuerySuccess [0xA1]) mismatch_state = Exited \<and>
   (\<exists>st'. deliverResult test_cfg 5 2 (result_for 0 2 QuerySuccess [0xA1]) mismatch_state =
            Running st' \<and>
      failures st' = failures mismatch_state @
         [(res_RequestID (result_for 0 2 QuerySuccess [0xA1]), ChainMismatch)] \<and>
      published st' = published mismatch_state \<and>
      handleResponse test_cfg 7 (result_for 0 1 QuerySuccess [0xA1]) st' = st' \<and>
      map_of (pending (runOrchestrator test_cfg later_events st'))
        (res_RequestID (result_for 0 2 QuerySuccess [0xA1])) = None \<and>
      publicationsOf test_cfg (res_RequestID (result_for 0 2 QuerySuccess [0xA1]))
        (runOrchestrator test_cfg later_events st') =
      publicationsOf test_cfg (res_RequestID (result_for 0 2 QuerySuccess [0xA1]))
        mismatch_state)"
proof -
  let ?res = "result_for 0 2 QuerySuccess [0xA1]"
  have r: "mismatch_state =
     runOrchestrator test_cfg
       [NewRequest 0 two_chain_sr two_chain_req,
        Result 3 (result_for 1 2 QuerySuccess [0xB2])] initialOrchestrator"
    by (rule mismatch_state_def)
  have a: "map_of (pending mismatch_state) (res_RequestID ?res) \<noteq> None" by code_simp
  then obtain pq where pq: "map_of (pending mismatch_state) (res_RequestID ?res) = Some pq"
    by blast
  have b: "recordedChain (the (map_of (pending mismatch_state) (res_RequestID ?res)))
     (res_RequestIdx ?res) = Some 1" by code_simp
  have c: "res_ChainId ?res = 2" by (simp add: result_for_def)
  have same: "res_RequestID (result_for 0 1 QuerySuccess [0xA1]) = res_RequestID ?res"
    by (simp add: result_for_def)
  from b c pq have mm: "recordedChain pq (res_RequestIdx ?res) \<noteq> Some (res_ChainId ?res)"
    by simp
  have l: "list_all (\<lambda>e. \<not> submits test_cfg (res_RequestID ?res) e) later_events"
    by code_simp
  note t1 = chain_mismatch_is_fatal [OF r pq mm l, of 1 5]
  note t2 = chain_mismatch_is_fatal [OF r pq mm l, of 2 5]
  from t1 c have e: "deliverResult test_cfg 5 1 ?res mismatch_state = Exited" by simp
  from t2 c obtain st' where
    s1: "deliverResult test_cfg 5 2 ?res mismatch_state = Running st'" and
    s2: "failures st' = failures mismatch_state @ [(res_RequestID ?res, ChainMismatch)]" and
    s3: "published st' = published mismatch_state" and
    s4: "\<forall>now' res'. res_RequestID res' = res_RequestID ?res \<longrightarrow>
           handleResponse test_cfg now' res' st' = st'" and
    s5: "map_of (pending (runOrchestrator test_cfg later_events st')) (res_RequestID ?res) =
           None" and
    s6: "publicationsOf test_cfg (res_RequestID ?res)
           (runOrchestrator test_cfg later_events st') =
         publicationsOf test_cfg (res_RequestID ?res) mismatch_state"
    by blast
  from s4 same have s7: "handleResponse test_cfg 7 (result_for 0 1 QuerySuccess [0xA1]) st' = st'"
    by blast
  from s1 s2 s3 s7 s5 s6
  have "\<exists>st'. deliverResult test_cfg 5 2 ?res mismatch_state = Running st' \<and>
      failures st' = failures mismatch_state @ [(res_RequestID ?res, ChainMismatch)] \<and>
      published st' = published mismatch_state \<and>
      handleResponse test_cfg 7 (result_for 0 1 QuerySuccess [0xA1]) st' = st' \<and>
      map_of (pending (runOrchestrator test_cfg later_events st')) (res_RequestID ?res) = None \<and>
      publicationsOf test_cfg (res_RequestID ?res) (runOrchestrator test_cfg later_events st') =
      publicationsOf test_cfg (res_RequestID ?res) mismatch_state" by blast
  with r a b c l e show ?thesis by blast
qed

section \<open>Properties of the orchestrator wired to the mock watchers\<close>

subsection \<open>The mock watcher\<close>

lemma wrap64_id: "- (2 ^ 63) \<le> x \<Longrightarrow> x < 2 ^ 63 \<Longrightarrow> wrap64 x = x"
  by (simp add: wrap64_def)

lemma shouldIgnore_retriesAfter:
  assumes "retriesPerChain md = retriesAfter c k j" and "int k < ignoreQuery"
  shows "shouldIgnoreAlreadyLocked chain md = (False, md)"
  using assms
  by (auto simp: shouldIgnoreAlreadyLocked_def retriesAfter_def ignoreQuery_def
      split: option.splits if_splits)

lemma getStatus_retriesAfter:
  assumes r: "retriesPerChain md = retriesAfter c k j" and k: "int k < ignoreQuery"
  shows "getStatusAlreadyLocked chain md =
     (if chain = c \<and> j < k
      then (QueryRetryNeeded, md\<lparr>retriesPerChain := retriesAfter c k (Suc j)\<rparr>)
      else (QuerySuccess, md))"
proof (cases "chain = c \<and> j < k")
  case False
  with r show ?thesis
    by (auto simp: getStatusAlreadyLocked_def retriesAfter_def split: if_splits)
next
  case True
  then have v: "retriesPerChain md chain = Some (int (k - j))"
    using r by (simp add: retriesAfter_def)
  from True k have nf: "int (k - j) \<noteq> fatalError"
    by (simp add: fatalError_def ignoreQuery_def)
  from True k have w: "wrap64 (int (k - j) - 1) = int (k - j) - 1"
    by (intro wrap64_id) (simp_all add: ignoreQuery_def)
  show ?thesis
  proof (cases "Suc j < k")
    case t: True
    with True have "(retriesPerChain md)(chain \<mapsto> int (k - j) - 1) = retriesAfter c k (Suc j)"
      using r by (auto simp: retriesAfter_def fun_eq_iff of_nat_diff)
    with True t v nf w show ?thesis
      by (simp add: getStatusAlreadyLocked_def)
  next
    case f: False
    with True have "(retriesPerChain md)(chain := None) = retriesAfter c k (Suc j)"
      using r by (auto simp: retriesAfter_def fun_eq_iff)
    with True f v nf w show ?thesis
      by (simp add: getStatusAlreadyLocked_def)
  qed
qed

lemma increment_simps [simp]:
  "expectedResults (incrementRequestsPerChainAlreadyLocked c md) = expectedResults md"
  "retriesPerChain (incrementRequestsPerChainAlreadyLocked c md) = retriesPerChain md"
  "requestsPerChain (incrementRequestsPerChainAlreadyLocked c md) c' =
     (if c' = c
      then Some (case requestsPerChain md c of Some val \<Rightarrow> wrap64 (val + 1) | None \<Rightarrow> 1)
      else requestsPerChain md c')"
  by (simp_all add: incrementRequestsPerChainAlreadyLocked_def split: option.splits)

lemma watcherTurn_retriesAfter:
  assumes r: "retriesPerChain md = retriesAfter c k j" and k: "int k < ignoreQuery"
    and idx: "pcq_RequestIdx item < length (expectedResults md)"
  shows "watcherTurn (ChainId (pcq_Request item)) item md =
     Replied
       ((incrementRequestsPerChainAlreadyLocked (ChainId (pcq_Request item)) md)
          \<lparr>retriesPerChain :=
             (if ChainId (pcq_Request item) = c then retriesAfter c k (Suc j)
              else retriesAfter c k j)\<rparr>)
       \<lparr>res_RequestID = pcq_RequestID item, res_RequestIdx = pcq_RequestIdx item,
        res_ChainId = ChainId (pcq_Request item),
        res_Status = (if ChainId (pcq_Request item) = c \<and> j < k
                      then QueryRetryNeeded else QuerySuccess),
        res_Response = expectedResults md ! pcq_RequestIdx item\<rparr>"
proof -
  let ?chain = "ChainId (pcq_Request item)"
  let ?md1 = "incrementRequestsPerChainAlreadyLocked ?chain md"
  have r1: "retriesPerChain ?md1 = retriesAfter c k j" and e1: "expectedResults ?md1 = expectedResults md"
    using r by (simp_all add: incrementRequestsPerChainAlreadyLocked_def split: option.splits)
  have same: "retriesAfter c k (Suc j) = retriesAfter c k j" if "\<not> j < k"
    using that by (simp add: retriesAfter_def)
  have "?md1\<lparr>retriesPerChain := retriesAfter c k j\<rparr> = ?md1" using r1 by simp
  with shouldIgnore_retriesAfter [OF r1 k, of ?chain] getStatus_retriesAfter [OF r1 k, of ?chain]
    idx e1 same
  show ?thesis
    by (auto simp: watcherTurn_def Let_def)
qed

subsection \<open>A store holding the one request of the scenario\<close>

lemma mkPending_cong:
  "(\<And>i. i < length (sc_queries s) \<Longrightarrow> f i = g i) \<Longrightarrow> mkPending s f t = mkPending s g t"
  by (simp add: mkPending_def)

lemma map_upt_update:
  "i < n \<Longrightarrow> (map f [0 ..< n])[i := x] = map (f(i := x)) [0 ..< n]"
  by (rule nth_equalityI) (auto simp: nth_list_update)

lemma mkPending_simps [simp]:
  "pq_requestID (mkPending s f t) = sc_rid s"
  "pq_signedRequest (mkPending s f t) = sc_sr s"
  "pq_queryRequest (mkPending s f t) = sc_req s"
  "pq_createdAt (mkPending s f t) = sc_start s"
  "pq_lastRetryAt (mkPending s f t) = t"
  "length (pq_perChainState (mkPending s f t)) = length (sc_queries s)"
  "(mkPending s f t)\<lparr>pq_lastRetryAt := t'\<rparr> = mkPending s f t'"
  by (simp_all add: mkPending_def)

lemma mkPending_nth [simp]:
  "i < length (sc_queries s) \<Longrightarrow> pq_perChainState (mkPending s f t) ! i = f i"
  by (simp add: mkPending_def)

lemma recordedChain_mkPending:
  "i < length (sc_queries s) \<Longrightarrow>
   recordedChain (mkPending s f t) i = Some (pcs_chainId (f i))"
  by (simp add: recordedChain_def)

lemma recordSuccess_mkPending:
  "i < length (sc_queries s) \<Longrightarrow>
   recordSuccess i r (mkPending s f t) =
     mkPending s (f(i := (f i)\<lparr>pcs_status := Success, pcs_result := Some r\<rparr>)) t"
  by (simp add: recordSuccess_def mkPending_def map_upt_update)

lemma countRetry_mkPending:
  "i < length (sc_queries s) \<Longrightarrow>
   countRetry i (mkPending s f t) =
     mkPending s (f(i := (f i)\<lparr>pcs_retryCount := pcs_retryCount (f i) + 1\<rparr>)) t"
  by (simp add: countRetry_def mkPending_def map_upt_update)

lemma allSucceeded_mkPending:
  "allSucceeded (mkPending s f t) \<longleftrightarrow>
     (\<forall>i < length (sc_queries s). pcs_status (f i) = Success)"
  by (simp add: allSucceeded_def mkPending_def list_all_length)

lemma unfinished_mkPending:
  "unfinished (mkPending s f t) =
     filter (\<lambda>i. pcs_status (f i) \<noteq> Success) [0 ..< length (sc_queries s)]"
  unfolding unfinished_def
  by (rule filter_cong) (simp_all add: mkPending_def)

lemma filter_upt_single:
  assumes "j < n"
  shows "filter (\<lambda>i. i = j) [0 ..< n] = [j]"
proof -
  from assms have "[0 ..< n] = [0 ..< j] @ j # [Suc j ..< n]"
    by (metis upt_conv_Cons upt_add_eq_append le0 le_add_diff_inverse less_imp_le_nat)
  then show ?thesis by (auto simp: filter_empty_conv)
qed

lemma map_filter_map_some:
  "List.map_filter (\<lambda>x. Some (g x)) xs = map g xs"
  by (induction xs) (simp_all add: List.map_filter_simps)

lemma single_pending_ops:
  assumes "pending st = [(rid, pq)]"
  shows "map_of (pending st) rid = Some pq"
    and "removePending rid st = st\<lparr>pending := []\<rparr>"
    and "replacePending rid pq' st = st\<lparr>pending := [(rid, pq')]\<rparr>"
  using assms by (simp_all add: removePending_def replacePending_def)

lemma handleResponse_success:
  assumes pend: "pending st = [(sc_rid s, mkPending s f t)]"
    and i: "i < length (sc_queries s)"
    and open_i: "pcs_status (f i) \<noteq> Success"
  shows "handleResponse cfg now
           \<lparr>res_RequestID = sc_rid s, res_RequestIdx = i, res_ChainId = pcs_chainId (f i),
            res_Status = QuerySuccess, res_Response = r\<rparr> st =
         (if \<forall>j < length (sc_queries s).
               pcs_status ((f(i := (f i)\<lparr>pcs_status := Success, pcs_result := Some r\<rparr>)) j) = Success
          then st\<lparr>pending := [],
                  published := published st @
                    [publicationOf
                       (mkPending s (f(i := (f i)\<lparr>pcs_status := Success, pcs_result := Some r\<rparr>)) t)]\<rparr>
          else st\<lparr>pending :=
                    [(sc_rid s,
                      mkPending s (f(i := (f i)\<lparr>pcs_status := Success, pcs_result := Some r\<rparr>)) t)]\<rparr>)"
  using open_i
  by (simp add: handleResponse_def Let_def single_pending_ops [OF pend]
      recordedChain_mkPending [OF i] recordSuccess_mkPending [OF i] i
      allSucceeded_mkPending)

lemma handleResponse_retry:
  assumes pend: "pending st = [(sc_rid s, mkPending s f t)]"
    and i: "i < length (sc_queries s)"
    and open_i: "pcs_status (f i) \<noteq> Success"
    and early: "now < t + cfg_retryInterval cfg"
  shows "handleResponse cfg now
           \<lparr>res_RequestID = sc_rid s, res_RequestIdx = i, res_ChainId = pcs_chainId (f i),
            res_Status = QueryRetryNeeded, res_Response = r\<rparr> st =
         st\<lparr>pending :=
              [(sc_rid s,
                mkPending s (f(i := (f i)\<lparr>pcs_retryCount := pcs_retryCount (f i) + 1\<rparr>)) t)]\<rparr>"
  using open_i early
  by (simp add: handleResponse_def Let_def single_pending_ops [OF pend]
      recordedChain_mkPending [OF i] countRetry_mkPending [OF i] i)

lemma handleAuditSweep_retry:
  assumes pend: "pending st = [(sc_rid s, mkPending s f t)]"
    and alive: "now \<le> sc_start s + cfg_requestTimeout cfg"
    and due: "t + cfg_retryInterval cfg < now"
  shows "handleAuditSweep cfg now st =
         st\<lparr>pending := [(sc_rid s, retryUnfinished now (mkPending s f t))],
            dispatched := dispatched st @
              map (dispatchOf (sc_rid s) (sc_req s)) (unfinished (mkPending s f t))\<rparr>"
  using alive due
  by (simp add: handleAuditSweep_def pend single_pending_ops(3) [OF pend])

lemma retryUnfinished_betweenSweeps:
  assumes j: "sc_idx s < length (sc_queries s)"
  shows "unfinished (mkPending s (betweenSweeps s rc) t) = [sc_idx s]"
    and "retryUnfinished now (mkPending s (betweenSweeps s rc) t) =
           mkPending s (betweenSweeps s (Suc rc)) now"
proof -
  have "(\<lambda>i. pcs_status (betweenSweeps s rc i) \<noteq> Success) = (\<lambda>i. i = sc_idx s)"
    by (auto simp: betweenSweeps_def subRetrying_def subDone_def fun_eq_iff)
  then show u: "unfinished (mkPending s (betweenSweeps s rc) t) = [sc_idx s]"
    by (simp add: unfinished_mkPending filter_upt_single [OF j])
  have "(betweenSweeps s rc)(sc_idx s := (betweenSweeps s rc (sc_idx s))
          \<lparr>pcs_retryCount := pcs_retryCount (betweenSweeps s rc (sc_idx s)) + 1\<rparr>) =
        betweenSweeps s (Suc rc)"
    by (auto simp: betweenSweeps_def subRetrying_def fun_eq_iff)
  then show "retryUnfinished now (mkPending s (betweenSweeps s rc) t) =
           mkPending s (betweenSweeps s (Suc rc)) now"
    by (simp add: retryUnfinished_def u countRetry_mkPending [OF j])
qed

lemma sc_ok_facts:
  assumes "sc_ok s"
  shows "sc_idx s < length (sc_queries s)"
    and "length (sc_results s) = length (sc_queries s)"
    and "0 < cfg_retryInterval (sc_cfg s)"
    and "int (sc_retries s) < ignoreQuery"
    and "\<And>i. i < length (sc_queries s) \<Longrightarrow>
           (ChainId (sc_queries s ! i) = sc_chain s) = (i = sc_idx s)"
    and "\<not> list_ex (\<lambda>pcq. ChainId pcq \<notin> cfg_routes (sc_cfg s)) (PerChainQueries (sc_req s))"
  using assms
  by (auto simp: sc_ok_def list_all_iff list_ex_iff sc_chain_def)

lemma dispatchOf_simps [simp]:
  "pcq_RequestID (dispatchOf rid req i) = rid"
  "pcq_RequestIdx (dispatchOf rid req i) = i"
  "pcq_Request (dispatchOf rid req i) = PerChainQueries req ! i"
  by (simp_all add: dispatchOf_def)

lemma dispatchCount_first:
  assumes "j < n"
  shows "length (filter (\<lambda>d. pcq_RequestID d = rid \<and> pcq_RequestIdx d = j)
           (map (dispatchOf rid req) [0 ..< n])) = 1"
proof -
  have "filter (\<lambda>d. pcq_RequestID d = rid \<and> pcq_RequestIdx d = j)
           (map (dispatchOf rid req) [0 ..< n]) =
        map (dispatchOf rid req) (filter (\<lambda>i. i = j) [0 ..< n])"
    by (simp add: filter_map comp_def)
  with filter_upt_single [OF assms] show ?thesis by simp
qed

lemma dispatchCount_log:
  assumes "i < length (sc_queries s)"
  shows "length (filter (\<lambda>d. pcq_RequestID d = sc_rid s \<and> pcq_RequestIdx d = i)
           (dispatchLog s r)) = (if i = sc_idx s then r + 1 else 1)"
  unfolding dispatchLog_def filter_append length_append dispatchCount_first [OF assms]
  by (simp add: filter_replicate)

lemma dispatchLog_Suc:
  "dispatchLog s r @ [dispatchOf (sc_rid s) (sc_req s) (sc_idx s)] = dispatchLog s (Suc r)"
  by (simp add: dispatchLog_def replicate_append_same)

lemma dispatchLog_0:
  "dispatchLog s 0 = map (dispatchOf (sc_rid s) (sc_req s)) [0 ..< length (sc_queries s)]"
  by (simp add: dispatchLog_def)

lemma publication_finished:
  assumes len: "length (sc_results s) = length (sc_queries s)"
    and res: "\<And>i. i < length (sc_queries s) \<Longrightarrow> pcs_result (f i) = Some (sc_results s ! i)"
  shows "publicationOf (mkPending s f t) =
           \<lparr>pub_Request = sc_sr s, pub_PerChainResponses = sc_results s\<rparr>"
proof -
  have "List.map_filter pcs_result (map f [0 ..< length (sc_queries s)]) =
        List.map_filter (\<lambda>i. Some (sc_results s ! i)) [0 ..< length (sc_queries s)]"
    using res by (simp add: List.map_filter_def comp_def cong: filter_cong map_cong)
  also have "\<dots> = map (\<lambda>i. sc_results s ! i) [0 ..< length (sc_queries s)]"
    by (rule map_filter_map_some)
  also have "\<dots> = sc_results s"
    using len by (metis map_nth)
  finally show ?thesis by (simp add: publicationOf_def mkPending_def)
qed

subsection \<open>The first round of answers\<close>

lemma firstRound_deliver:
  assumes ok: "sc_ok s" and inv: "firstRoundEnv s m env" and m: "m < length (sc_queries s)"
  shows "\<exists>env'. deliverNext (sc_cfg s) (sc_start s) env = Inr env' \<and>
           (if sc_retries s = 0 \<and> Suc m = length (sc_queries s)
            then finishedEnv s env' else firstRoundEnv s (Suc m) env')"
proof -
  note f = sc_ok_facts [OF ok]
  let ?n = "length (sc_queries s)"
  let ?j = "if sc_idx s < m then 1 else 0 :: nat"
  let ?item = "dispatchOf (sc_rid s) (sc_req s) m"
  let ?chain = "ChainId (sc_queries s ! m)"
  let ?retry = "m = sc_idx s \<and> 0 < sc_retries s"
  let ?status = "if ?retry then QueryRetryNeeded else QuerySuccess"
  let ?res = "\<lparr>res_RequestID = sc_rid s, res_RequestIdx = m, res_ChainId = ?chain,
               res_Status = ?status, res_Response = sc_results s ! m\<rparr>"
  let ?md = "(incrementRequestsPerChainAlreadyLocked ?chain (mock env))
          \<lparr>retriesPerChain := retriesAfter (sc_chain s) (sc_retries s)
             (if sc_idx s < Suc m then 1 else 0)\<rparr>"
  from inv have pend: "pending (orch env) = [(sc_rid s, mkPending s (firstRound s m) (sc_start s))]"
    and disp: "dispatched (orch env) = map (dispatchOf (sc_rid s) (sc_req s)) [0 ..< ?n]"
    and pub: "published (orch env) = []" and fail: "failures (orch env) = []"
    and del: "delivered env = m"
    and exp: "expectedResults (mock env) = sc_results s"
    and ret: "retriesPerChain (mock env) = retriesAfter (sc_chain s) (sc_retries s) ?j"
    and reqs: "requestsPerChain (mock env) (sc_chain s) = (if sc_idx s < m then Some 1 else None)"
    and rep: "reportedStatuses (sc_rid s) (sc_idx s) env =
        (if sc_idx s < m
         then [if 0 < sc_retries s then QueryRetryNeeded else QuerySuccess] else [])"
    by (simp_all add: firstRoundEnv_def)
  from m disp del have item: "dispatched (orch env) ! delivered env = ?item" by simp
  have chain: "ChainId (pcq_Request ?item) = ?chain" by simp
  have cm: "(?chain = sc_chain s) = (m = sc_idx s)" by (rule f(5) [OF m])
  from m f(2) exp have idx: "pcq_RequestIdx ?item < length (expectedResults (mock env))" by simp
  have st: "(?chain = sc_chain s \<and> ?j < sc_retries s) = ?retry"
    using cm by auto
  have rt: "(if ?chain = sc_chain s then retriesAfter (sc_chain s) (sc_retries s) (Suc ?j)
             else retriesAfter (sc_chain s) (sc_retries s) ?j) =
            retriesAfter (sc_chain s) (sc_retries s) (if sc_idx s < Suc m then 1 else 0)"
    using cm by auto
  have turn: "watcherTurn ?chain ?item (mock env) = Replied ?md ?res"
    using watcherTurn_retriesAfter [OF ret f(4) idx] exp
    unfolding chain st rt by simp
  have cur: "firstRound s m m = subInitial s m" by (simp add: firstRound_def)
  then have open_m: "pcs_status (firstRound s m m) \<noteq> Success"
    and ch_m: "pcs_chainId (firstRound s m m) = ?chain"
    by (simp_all add: subInitial_def)
  have md_exp: "expectedResults ?md = sc_results s" using exp by simp
  have md_ret: "retriesPerChain ?md =
      retriesAfter (sc_chain s) (sc_retries s) (if sc_idx s < Suc m then 1 else 0)" by simp
  have md_req: "requestsPerChain ?md (sc_chain s) = (if sc_idx s < Suc m then Some 1 else None)"
  proof (cases "m = sc_idx s")
    case True
    with reqs cm show ?thesis by simp
  next
    case False
    then have "(sc_idx s < Suc m) = (sc_idx s < m)" by auto
    with False reqs cm show ?thesis by simp
  qed
  let ?env' = "\<lparr>orch = handleResponse (sc_cfg s) (sc_start s) ?res (orch env), mock = ?md,
                delivered = delivered env + 1, answers = answers env @ [?res]\<rparr>"
  have next_env: "deliverNext (sc_cfg s) (sc_start s) env = Inr ?env'"
    by (simp add: deliverNext_def Let_def item chain turn)
  from rep have rep0: "map res_Status
        (filter (\<lambda>res. res_RequestID res = sc_rid s \<and> res_RequestIdx res = sc_idx s)
           (answers env)) =
        (if sc_idx s < m
         then [if 0 < sc_retries s then QueryRetryNeeded else QuerySuccess] else [])"
    by (simp add: reportedStatuses_def)
  have rep': "map res_Status
        (filter (\<lambda>res. res_RequestID res = sc_rid s \<and> res_RequestIdx res = sc_idx s)
           (answers env @ [?res])) =
        (if sc_idx s < Suc m
         then [if 0 < sc_retries s then QueryRetryNeeded else QuerySuccess] else [])"
  proof (cases "m = sc_idx s")
    case True
    with rep0 show ?thesis by simp
  next
    case False
    then have "(sc_idx s < Suc m) = (sc_idx s < m)" by auto
    with False rep0 show ?thesis by simp
  qed
  show ?thesis
  proof (cases ?retry)
    case True
    have upd: "(firstRound s m)(m := (firstRound s m m)
        \<lparr>pcs_retryCount := pcs_retryCount (firstRound s m m) + 1\<rparr>) = firstRound s (Suc m)"
      using True
      by (auto simp: firstRound_def subInitial_def subRetrying_def sc_chain_def fun_eq_iff
          less_Suc_eq)
    from f(3) have early: "sc_start s < sc_start s + cfg_retryInterval (sc_cfg s)" by simp
    from handleResponse_retry [OF pend m open_m early, of "sc_results s ! m"] True ch_m upd
    have hr: "handleResponse (sc_cfg s) (sc_start s) ?res (orch env) =
        (orch env)\<lparr>pending := [(sc_rid s, mkPending s (firstRound s (Suc m)) (sc_start s))]\<rparr>"
      by simp
    have "firstRoundEnv s (Suc m) ?env'"
      unfolding firstRoundEnv_def hr reportedStatuses_def
      using disp pub fail del md_exp md_ret md_req rep' by simp
    with True next_env show ?thesis by auto
  next
    case False
    have upd: "(firstRound s m)(m := (firstRound s m m)
        \<lparr>pcs_status := Success, pcs_result := Some (sc_results s ! m)\<rparr>) = firstRound s (Suc m)"
      using False
      by (auto simp: firstRound_def subInitial_def subDone_def fun_eq_iff less_Suc_eq)
    have all: "(\<forall>j < ?n. pcs_status (firstRound s (Suc m) j) = Success) \<longleftrightarrow>
        sc_retries s = 0 \<and> Suc m = ?n"
    proof
      assume a: "\<forall>j < ?n. pcs_status (firstRound s (Suc m) j) = Success"
      have "Suc m = ?n"
      proof (rule ccontr)
        assume "Suc m \<noteq> ?n"
        with m have "Suc m < ?n" by simp
        with a have "pcs_status (firstRound s (Suc m) (Suc m)) = Success" by blast
        then show False by (simp add: firstRound_def subInitial_def)
      qed
      moreover have "sc_retries s = 0"
      proof (rule ccontr)
        assume "sc_retries s \<noteq> 0"
        moreover from a f(1) have "pcs_status (firstRound s (Suc m) (sc_idx s)) = Success"
          by blast
        ultimately show False
          by (simp add: firstRound_def subInitial_def subRetrying_def split: if_splits)
      qed
      ultimately show "sc_retries s = 0 \<and> Suc m = ?n" by simp
    next
      assume "sc_retries s = 0 \<and> Suc m = ?n"
      then show "\<forall>j < ?n. pcs_status (firstRound s (Suc m) j) = Success"
        by (simp add: firstRound_def subDone_def)
    qed
    from handleResponse_success [OF pend m open_m, of "sc_cfg s" "sc_start s" "sc_results s ! m"]
      False ch_m upd all
    have hr: "handleResponse (sc_cfg s) (sc_start s) ?res (orch env) =
        (if sc_retries s = 0 \<and> Suc m = ?n
         then (orch env)\<lparr>pending := [],
                published := published (orch env) @
                  [publicationOf (mkPending s (firstRound s (Suc m)) (sc_start s))]\<rparr>
         else (orch env)\<lparr>pending :=
                  [(sc_rid s, mkPending s (firstRound s (Suc m)) (sc_start s))]\<rparr>)"
      by simp
    show ?thesis
    proof (cases "sc_retries s = 0 \<and> Suc m = ?n")
      case fin: True
      have p: "publicationOf (mkPending s (firstRound s (Suc m)) (sc_start s)) =
          \<lparr>pub_Request = sc_sr s, pub_PerChainResponses = sc_results s\<rparr>"
        by (rule publication_finished [OF f(2)]) (use fin in \<open>simp add: firstRound_def subDone_def\<close>)
      from fin f(1) have lt: "sc_idx s < Suc m" by simp
      have "finishedEnv s ?env'"
        unfolding finishedEnv_def hr reportedStatuses_def
        using fin p pub fail del disp md_req rep' lt
        by (simp add: getRequestsPerChain_def dispatchLog_0)
      with fin next_env show ?thesis by auto
    next
      case nf: False
      have "firstRoundEnv s (Suc m) ?env'"
        unfolding firstRoundEnv_def hr reportedStatuses_def
        using nf disp pub fail del md_exp md_ret md_req rep' by simp
      with nf next_env show ?thesis by auto
    qed
  qed
qed

lemma drain_settled:
  "length (dispatched (orch env)) \<le> delivered env \<Longrightarrow> drain cfg now fuel env = Inr env"
  by (simp add: drain.simps)

lemma drain_step:
  "delivered env < length (dispatched (orch env)) \<Longrightarrow>
   deliverNext cfg now env = Inr env' \<Longrightarrow>
   drain cfg now (Suc fuel) env = drain cfg now fuel env'"
  by (simp add: drain.simps)

lemma firstRound_drain:
  assumes ok: "sc_ok s"
  shows "firstRoundEnv s m env \<Longrightarrow> m \<le> length (sc_queries s) \<Longrightarrow>
         m < length (sc_queries s) \<or> 0 < sc_retries s \<Longrightarrow>
         length (sc_queries s) - m \<le> fuel \<Longrightarrow>
         \<exists>env'. drain (sc_cfg s) (sc_start s) fuel env = Inr env' \<and>
           (if sc_retries s = 0 then finishedEnv s env'
            else firstRoundEnv s (length (sc_queries s)) env')"
proof (induction "length (sc_queries s) - m" arbitrary: m env fuel)
  case 0
  then have m: "m = length (sc_queries s)" by simp
  with 0 have k: "0 < sc_retries s" by simp
  from 0 m have "length (dispatched (orch env)) \<le> delivered env"
    by (simp add: firstRoundEnv_def)
  then have "drain (sc_cfg s) (sc_start s) fuel env = Inr env" by (rule drain_settled)
  with 0 m k show ?case by simp
next
  case (Suc d)
  then have m: "m < length (sc_queries s)" by simp
  from Suc obtain fuel' where fuel: "fuel = Suc fuel'" by (cases fuel) simp_all
  from firstRound_deliver [OF ok Suc.prems(1) m] obtain env' where
    dn: "deliverNext (sc_cfg s) (sc_start s) env = Inr env'" and
    post: "if sc_retries s = 0 \<and> Suc m = length (sc_queries s)
           then finishedEnv s env' else firstRoundEnv s (Suc m) env'" by blast
  from Suc.prems(1) m have "delivered env < length (dispatched (orch env))"
    by (simp add: firstRoundEnv_def)
  from drain_step [OF this dn] fuel
  have dr: "drain (sc_cfg s) (sc_start s) fuel env = drain (sc_cfg s) (sc_start s) fuel' env'"
    by simp
  show ?case
  proof (cases "sc_retries s = 0 \<and> Suc m = length (sc_queries s)")
    case True
    with post have fin: "finishedEnv s env'" by simp
    then have "length (dispatched (orch env')) \<le> delivered env'" by (simp add: finishedEnv_def)
    then have "drain (sc_cfg s) (sc_start s) fuel' env' = Inr env'" by (rule drain_settled)
    with dr fin True show ?thesis by simp
  next
    case False
    with post have inv': "firstRoundEnv s (Suc m) env'" by simp
    from Suc.hyps(2) have d: "d = length (sc_queries s) - Suc m" by simp
    from m have le: "Suc m \<le> length (sc_queries s)" by simp
    from False m have nz: "Suc m < length (sc_queries s) \<or> 0 < sc_retries s" by auto
    from Suc.prems(4) fuel have fl: "length (sc_queries s) - Suc m \<le> fuel'" by simp
    from Suc.hyps(1) [OF d inv' le nz fl] dr show ?thesis by simp
  qed
qed

lemma firstRound_done:
  assumes ok: "sc_ok s" and k: "0 < sc_retries s"
    and inv: "firstRoundEnv s (length (sc_queries s)) env"
  shows "betweenSweepsEnv s 0 (sc_start s) env"
proof -
  note f = sc_ok_facts [OF ok]
  have "mkPending s (firstRound s (length (sc_queries s))) (sc_start s) =
        mkPending s (betweenSweeps s 1) (sc_start s)"
    by (rule mkPending_cong) (simp add: firstRound_def betweenSweeps_def k)
  then show ?thesis
    using inv f(1) k by (simp add: betweenSweepsEnv_def firstRoundEnv_def dispatchLog_0)
qed

lemma submit_step:
  assumes ok: "sc_ok s" and fuel: "length (sc_queries s) \<le> fuel"
  shows "\<exists>env'. testStep (sc_cfg s) fuel (sc_env s) (Submit (sc_start s) (sc_sr s) (sc_req s)) =
             Inr env' \<and>
           (if sc_retries s = 0 then finishedEnv s env'
            else betweenSweepsEnv s 0 (sc_start s) env')"
proof -
  note f = sc_ok_facts [OF ok]
  let ?env = "(sc_env s)\<lparr>orch := handleRequest (sc_cfg s) (sc_start s) (sc_sr s) (sc_req s)
      (orch (sc_env s))\<rparr>"
  have init: "initialPerChainState (sc_queries s) =
      map (firstRound s 0) [0 ..< length (sc_queries s)]"
    by (rule nth_equalityI)
       (simp_all add: initialPerChainState_def firstRound_def subInitial_def nth_enumerate_eq)
  have mock0: "expectedResults (sc_mock s) = sc_results s"
    "retriesPerChain (sc_mock s) = retriesAfter (sc_chain s) (sc_retries s) 0"
    "requestsPerChain (sc_mock s) (sc_chain s) = None"
    by (auto simp: sc_mock_def Let_def setExpectedResults_def resetState_def setRetries_def
        retriesAfter_def)
  have "firstRoundEnv s 0 ?env"
    unfolding firstRoundEnv_def
    using f(6) init mock0
    by (simp add: sc_env_def handleRequest_def Let_def initialOrchestrator_def mkPending_def
        sc_rid_def reportedStatuses_def)
  from firstRound_drain [OF ok this _ _ _] f(1) fuel
  obtain env' where dr: "drain (sc_cfg s) (sc_start s) fuel ?env = Inr env'"
    and post: "if sc_retries s = 0 then finishedEnv s env'
               else firstRoundEnv s (length (sc_queries s)) env'"
    by force
  from post firstRound_done [OF ok _] have
    "if sc_retries s = 0 then finishedEnv s env' else betweenSweepsEnv s 0 (sc_start s) env'"
    by auto
  with dr show ?thesis by simp
qed

subsection \<open>One sweep, one more dispatch\<close>

lemma tick_step:
  assumes ok: "sc_ok s" and inv: "betweenSweepsEnv s r t env" and r: "r < sc_retries s"
    and due: "t + cfg_retryInterval (sc_cfg s) < now"
    and alive: "now \<le> sc_start s + cfg_requestTimeout (sc_cfg s)"
    and fuel: "0 < fuel"
  shows "\<exists>env'. testStep (sc_cfg s) fuel env (Tick now) = Inr env' \<and>
           (if Suc r < sc_retries s then betweenSweepsEnv s (Suc r) now env'
            else finishedEnv s env')"
proof -
  note f = sc_ok_facts [OF ok]
  let ?rc = "2 * r + 1"
  let ?item = "dispatchOf (sc_rid s) (sc_req s) (sc_idx s)"
  let ?chain = "ChainId (sc_queries s ! sc_idx s)"
  let ?again = "Suc r < sc_retries s"
  let ?status = "if ?again then QueryRetryNeeded else QuerySuccess"
  let ?res = "\<lparr>res_RequestID = sc_rid s, res_RequestIdx = sc_idx s, res_ChainId = ?chain,
               res_Status = ?status, res_Response = sc_results s ! sc_idx s\<rparr>"
  from inv have pend: "pending (orch env) = [(sc_rid s, mkPending s (betweenSweeps s ?rc) t)]"
    and pub: "published (orch env) = []" and fail: "failures (orch env) = []"
    and del: "delivered env = length (dispatched (orch env))"
    and disp: "dispatched (orch env) = dispatchLog s r"
    and exp: "expectedResults (mock env) = sc_results s"
    and ret: "retriesPerChain (mock env) = retriesAfter (sc_chain s) (sc_retries s) (r + 1)"
    and reqs: "requestsPerChain (mock env) (sc_chain s) = Some (int r + 1)"
    and rep: "map res_Status
        (filter (\<lambda>res. res_RequestID res = sc_rid s \<and> res_RequestIdx res = sc_idx s)
           (answers env)) = replicate (r + 1) QueryRetryNeeded"
    by (simp_all add: betweenSweepsEnv_def reportedStatuses_def)
  let ?swept = "(orch env)\<lparr>pending := [(sc_rid s, mkPending s (betweenSweeps s (Suc ?rc)) now)],
      dispatched := dispatched (orch env) @ [?item]\<rparr>"
  have sweep: "handleAuditSweep (sc_cfg s) now (orch env) = ?swept"
    using handleAuditSweep_retry [OF pend alive due] retryUnfinished_betweenSweeps [OF f(1)]
    by simp
  let ?env1 = "env\<lparr>orch := ?swept\<rparr>"
  have item: "dispatched (orch ?env1) ! delivered ?env1 = ?item" using del by simp
  have chain: "ChainId (pcq_Request ?item) = ?chain" by simp
  have cs: "?chain = sc_chain s" by (simp add: sc_chain_def)
  from f(1) f(2) exp have idx: "pcq_RequestIdx ?item < length (expectedResults (mock ?env1))"
    by simp
  have ret1: "retriesPerChain (mock ?env1) = retriesAfter (sc_chain s) (sc_retries s) (r + 1)"
    using ret by simp
  let ?md = "(incrementRequestsPerChainAlreadyLocked ?chain (mock env))
          \<lparr>retriesPerChain := retriesAfter (sc_chain s) (sc_retries s) (Suc (r + 1))\<rparr>"
  have turn: "watcherTurn ?chain ?item (mock ?env1) = Replied ?md ?res"
    using watcherTurn_retriesAfter [OF ret1 f(4) idx] exp cs
    unfolding chain by simp
  from r f(4) have small: "int r + 1 + 1 < 2 ^ 63" by (simp add: ignoreQuery_def)
  have w: "wrap64 (int r + 1 + 1) = int r + 1 + 1"
    by (rule wrap64_id) (use small in simp_all)
  have md_req: "requestsPerChain ?md (sc_chain s) = Some (int (Suc r) + 1)"
    using reqs cs w by simp
  let ?env' = "\<lparr>orch = handleResponse (sc_cfg s) now ?res ?swept, mock = ?md,
                delivered = delivered env + 1, answers = answers env @ [?res]\<rparr>"
  have next_env: "deliverNext (sc_cfg s) now ?env1 = Inr ?env'"
    using turn by (simp add: deliverNext_def Let_def del)
  have pend1: "pending ?swept = [(sc_rid s, mkPending s (betweenSweeps s (Suc ?rc)) now)]"
    by simp
  have open_j: "pcs_status (betweenSweeps s (Suc ?rc) (sc_idx s)) \<noteq> Success"
    and ch_j: "pcs_chainId (betweenSweeps s (Suc ?rc) (sc_idx s)) = ?chain"
    by (simp_all add: betweenSweeps_def subRetrying_def sc_chain_def)
  have disp': "dispatched (orch env) @ [?item] = dispatchLog s (Suc r)"
    unfolding disp by (rule dispatchLog_Suc)
  have len': "Suc (length (dispatched (orch env))) = length (dispatchLog s (Suc r))"
    using arg_cong [OF disp', of length] by simp
  have rep': "map res_Status
        (filter (\<lambda>res. res_RequestID res = sc_rid s \<and> res_RequestIdx res = sc_idx s)
           (answers env @ [?res])) = replicate (r + 1) QueryRetryNeeded @ [?status]"
    using rep by simp
  have settled: "testStep (sc_cfg s) fuel env (Tick now) =
      drain (sc_cfg s) now (fuel - 1) ?env'"
  proof -
    from fuel obtain fuel' where fl: "fuel = Suc fuel'" by (cases fuel) simp_all
    have "delivered ?env1 < length (dispatched (orch ?env1))" using del by simp
    from drain_step [OF this next_env] fl
    have d: "drain (sc_cfg s) now fuel ?env1 = drain (sc_cfg s) now (fuel - 1) ?env'" by simp
    have "testStep (sc_cfg s) fuel env (Tick now) = drain (sc_cfg s) now fuel ?env1"
      by (simp add: sweep)
    also note d
    finally show ?thesis .
  qed
  show ?thesis
  proof (cases ?again)
    case True
    have upd: "(betweenSweeps s (Suc ?rc))(sc_idx s := (betweenSweeps s (Suc ?rc) (sc_idx s))
        \<lparr>pcs_retryCount := pcs_retryCount (betweenSweeps s (Suc ?rc) (sc_idx s)) + 1\<rparr>) =
        betweenSweeps s (2 * Suc r + 1)"
      by (auto simp: betweenSweeps_def subRetrying_def fun_eq_iff)
    from f(3) have early: "now < now + cfg_retryInterval (sc_cfg s)" by simp
    from handleResponse_retry [OF pend1 f(1) open_j early, of "sc_results s ! sc_idx s"]
      True ch_j upd
    have hr: "handleResponse (sc_cfg s) now ?res ?swept =
        ?swept\<lparr>pending := [(sc_rid s, mkPending s (betweenSweeps s (2 * Suc r + 1)) now)]\<rparr>"
      by simp
    have inv': "betweenSweepsEnv s (Suc r) now ?env'"
      unfolding betweenSweepsEnv_def hr reportedStatuses_def
      using True pub fail del disp' len' exp md_req rep'
      by (simp add: replicate_append_same)
    then have "length (dispatched (orch ?env')) \<le> delivered ?env'"
      by (simp add: betweenSweepsEnv_def)
    then have "drain (sc_cfg s) now (fuel - 1) ?env' = Inr ?env'" by (rule drain_settled)
    with settled have "testStep (sc_cfg s) fuel env (Tick now) = Inr ?env'" by (rule trans)
    with inv' True show ?thesis by (intro exI [of _ ?env']) (simp only: if_True simp_thms)
  next
    case False
    with r have last: "Suc r = sc_retries s" by simp
    let ?f' = "(betweenSweeps s (Suc ?rc))(sc_idx s := (betweenSweeps s (Suc ?rc) (sc_idx s))
        \<lparr>pcs_status := Success, pcs_result := Some (sc_results s ! sc_idx s)\<rparr>)"
    have all: "\<forall>j < length (sc_queries s). pcs_status (?f' j) = Success"
      by (simp add: betweenSweeps_def subDone_def)
    have p: "publicationOf (mkPending s ?f' now) =
        \<lparr>pub_Request = sc_sr s, pub_PerChainResponses = sc_results s\<rparr>"
      by (rule publication_finished [OF f(2)]) (simp add: betweenSweeps_def subDone_def)
    from handleResponse_success [OF pend1 f(1) open_j, of "sc_cfg s" now
        "sc_results s ! sc_idx s"] False ch_j all p
    have hr: "handleResponse (sc_cfg s) now ?res ?swept =
        ?swept\<lparr>pending := [],
          published := published ?swept @
            [\<lparr>pub_Request = sc_sr s, pub_PerChainResponses = sc_results s\<rparr>]\<rparr>"
      by simp
    have fin: "finishedEnv s ?env'"
      unfolding finishedEnv_def hr reportedStatuses_def
      using False last pub fail del disp' len' md_req rep'
      by (simp add: getRequestsPerChain_def)
    then have "length (dispatched (orch ?env')) \<le> delivered ?env'"
      by (simp add: finishedEnv_def)
    then have "drain (sc_cfg s) now (fuel - 1) ?env' = Inr ?env'" by (rule drain_settled)
    with settled have "testStep (sc_cfg s) fuel env (Tick now) = Inr ?env'" by (rule trans)
    with fin False show ?thesis by (intro exI [of _ ?env']) (simp only: if_False simp_thms)
  qed
qed

text \<open>When every sweep is due, \<open>k\<close> sweeps complete the request.\<close>

lemma ticks_run:
  assumes ok: "sc_ok s" and fuel: "0 < fuel"
  shows "betweenSweepsEnv s r t env \<Longrightarrow> r < sc_retries s \<Longrightarrow>
         length ts = sc_retries s - r \<Longrightarrow>
         spaced (cfg_retryInterval (sc_cfg s)) t ts \<Longrightarrow>
         list_all (\<lambda>x. x \<le> sc_start s + cfg_requestTimeout (sc_cfg s)) ts \<Longrightarrow>
         \<exists>env'. runTest (sc_cfg s) fuel (map Tick ts) env = Inr env' \<and> finishedEnv s env'"
proof (induction ts arbitrary: r t env)
  case Nil
  then show ?case by simp
next
  case (Cons now ts)
  from Cons.prems have due: "t + cfg_retryInterval (sc_cfg s) < now"
    and alive: "now \<le> sc_start s + cfg_requestTimeout (sc_cfg s)"
    and sp: "spaced (cfg_retryInterval (sc_cfg s)) now ts"
    and al: "list_all (\<lambda>x. x \<le> sc_start s + cfg_requestTimeout (sc_cfg s)) ts"
    and len: "length ts = sc_retries s - Suc r"
    by simp_all
  from tick_step [OF ok Cons.prems(1) Cons.prems(2) due alive fuel] obtain env1 where
    st: "testStep (sc_cfg s) fuel env (Tick now) = Inr env1" and
    post: "if Suc r < sc_retries s then betweenSweepsEnv s (Suc r) now env1
           else finishedEnv s env1" by blast
  show ?case
  proof (cases "Suc r < sc_retries s")
    case True
    with post have "betweenSweepsEnv s (Suc r) now env1" by simp
    from Cons.IH [OF this True len sp al] st show ?thesis by simp
  next
    case False
    with Cons.prems(2) len have "ts = []" by simp
    with False post st show ?thesis by simp
  qed
qed

lemma spaced_sweeps_complete:
  assumes ok: "sc_ok s"
    and ticks: "length ts = sc_retries s"
    and gaps: "spaced (cfg_retryInterval (sc_cfg s)) (sc_start s) ts"
    and in_time: "list_all (\<lambda>x. x \<le> sc_start s + cfg_requestTimeout (sc_cfg s)) ts"
    and fuel: "length (sc_queries s) \<le> fuel"
  shows "\<exists>env'.
           runTest (sc_cfg s) fuel
             (Submit (sc_start s) (sc_sr s) (sc_req s) # map Tick ts) (sc_env s) = Inr env' \<and>
           reportedStatuses (sc_rid s) (sc_idx s) env' =
             replicate (sc_retries s) QueryRetryNeeded @ [QuerySuccess] \<and>
           dispatchCount (sc_rid s) (sc_idx s) (orch env') = sc_retries s + 1 \<and>
           getRequestsPerChain (sc_chain s) (mock env') = int (sc_retries s) + 1 \<and>
           published (orch env') =
             [\<lparr>pub_Request = sc_sr s, pub_PerChainResponses = sc_results s\<rparr>] \<and>
           pending (orch env') = [] \<and> failures (orch env') = []"
proof -
  from sc_ok_facts(1) [OF ok] fuel have pos: "0 < fuel" by simp
  from submit_step [OF ok fuel] obtain env1 where
    st: "testStep (sc_cfg s) fuel (sc_env s) (Submit (sc_start s) (sc_sr s) (sc_req s)) =
           Inr env1" and
    post: "if sc_retries s = 0 then finishedEnv s env1
           else betweenSweepsEnv s 0 (sc_start s) env1" by blast
  have "\<exists>env'. runTest (sc_cfg s) fuel (map Tick ts) env1 = Inr env' \<and> finishedEnv s env'"
  proof (cases "sc_retries s = 0")
    case True
    with ticks post show ?thesis by simp
  next
    case False
    with post have inv: "betweenSweepsEnv s 0 (sc_start s) env1" by simp
    from False have r: "0 < sc_retries s" by simp
    from ticks have len: "length ts = sc_retries s - 0" by simp
    from ticks_run [OF ok pos inv r len gaps in_time] show ?thesis .
  qed
  then obtain env' where "runTest (sc_cfg s) fuel (map Tick ts) env1 = Inr env'"
    and "finishedEnv s env'" by blast
  with st dispatchCount_log [OF sc_ok_facts(1) [OF ok], of "sc_retries s"]
  show ?thesis by (auto simp: finishedEnv_def dispatchCount_def)
qed

subsection \<open>Sweeps at any time\<close>









subsection \<open>Retries before success\<close>




end
